theory Spec2Isabelle
  imports Main "HOL-Library.Log_Nat"
begin

section \<open>Google Calendar Logger: the session-continuity logic\<close>

text \<open>
  A shallow embedding of the class \<open>GoogleCalendarLogger\<close> (the revision with
  \<open>getLatestIncompleteLogEvent\<close>, \<open>hasInactivity\<close> and \<open>logEndDueToInactivity\<close>).
  Strings are byte strings in UTF-8; instants are milliseconds since the epoch, as
  \<open>+date\<close> gives them; console output is not modelled.
\<close>

subsection \<open>JavaScript values the code computes with\<close>

text \<open>
  A JavaScript number is an IEEE 754 double: a finite value, an infinity or \<open>NaN\<close>.
  A finite double is written as the rational number it denotes. The sign of zero is
  dropped: the code multiplies, subtracts and compares with \<open>>\<close>, which cannot tell
  the two zeros apart.
\<close>

datatype jsnum = Num rat | PosInf | NegInf | NaN

text \<open>
  The result of an arithmetic operation is the exact result rounded to the nearest double,
  a tie going to the double with the even significand. \<open>roundHalfEven\<close> rounds to the
  nearest integer in that way. For a positive \<open>x\<close>, \<open>binade x\<close> is the exponent
  \<open>e\<close> with \<open>2 ^ e \<le> x < 2 ^ (e + 1)\<close>, and \<open>ulpExponent x\<close> the exponent of the
  spacing of the doubles there: 52 below the binade, and \<open>-1074\<close> throughout the
  subnormal range. A result that rounds to \<open>2 ^ 1024\<close> or beyond is an infinity.
\<close>

definition roundHalfEven :: "rat \<Rightarrow> int" where
  "roundHalfEven y =
     (let n = \<lfloor>y\<rfloor>; r = y - of_int n
      in if r < 1 / 2 then n else if 1 / 2 < r then n + 1 else if even n then n else n + 1)"

definition binade :: "rat \<Rightarrow> int" where
  "binade x = (if 1 \<le> x then bitlen \<lfloor>x\<rfloor> - 1 else - bitlen (\<lceil>1 / x\<rceil> - 1))"

definition ulpExponent :: "rat \<Rightarrow> int" where
  "ulpExponent x = max (binade x) (- 1022) - 52"

definition roundPos :: "rat \<Rightarrow> rat" where
  "roundPos x = of_int (roundHalfEven (x / 2 powi ulpExponent x)) * 2 powi ulpExponent x"

definition toDouble :: "rat \<Rightarrow> jsnum" where
  "toDouble x =
     (if x = 0 then Num 0
      else if 0 < x then (if 2 ^ 1024 \<le> roundPos x then PosInf else Num (roundPos x))
      else (if 2 ^ 1024 \<le> roundPos (- x) then NegInf else Num (- roundPos (- x))))"

text \<open>\<open>a - b\<close>, \<open>a * b\<close> and \<open>a > b\<close> on numbers.\<close>

fun js_minus :: "jsnum \<Rightarrow> jsnum \<Rightarrow> jsnum" where
  "js_minus (Num a) (Num b) = toDouble (a - b)"
| "js_minus NaN _ = NaN"
| "js_minus _ NaN = NaN"
| "js_minus PosInf PosInf = NaN"
| "js_minus NegInf NegInf = NaN"
| "js_minus PosInf _ = PosInf"
| "js_minus NegInf _ = NegInf"
| "js_minus (Num a) PosInf = NegInf"
| "js_minus (Num a) NegInf = PosInf"

fun js_times :: "jsnum \<Rightarrow> jsnum \<Rightarrow> jsnum" where
  "js_times (Num a) (Num b) = toDouble (a * b)"
| "js_times NaN _ = NaN"
| "js_times _ NaN = NaN"
| "js_times (Num a) PosInf = (if a = 0 then NaN else if 0 < a then PosInf else NegInf)"
| "js_times (Num a) NegInf = (if a = 0 then NaN else if 0 < a then NegInf else PosInf)"
| "js_times PosInf (Num b) = (if b = 0 then NaN else if 0 < b then PosInf else NegInf)"
| "js_times NegInf (Num b) = (if b = 0 then NaN else if 0 < b then NegInf else PosInf)"
| "js_times PosInf PosInf = PosInf"
| "js_times NegInf NegInf = PosInf"
| "js_times PosInf NegInf = NegInf"
| "js_times NegInf PosInf = NegInf"

fun js_gt :: "jsnum \<Rightarrow> jsnum \<Rightarrow> bool" where
  "js_gt (Num a) (Num b) = (a > b)"
| "js_gt PosInf (Num b) = True"
| "js_gt PosInf NegInf = True"
| "js_gt (Num a) NegInf = True"
| "js_gt _ _ = False"

text \<open>
  A \<open>Date\<close> holds a time value: a whole number of milliseconds since the epoch of
  magnitude at most 8.64e15, or \<open>NaN\<close>, which makes it an invalid date. A date is
  written as the integer it is made from, and \<open>timeClip\<close> gives the time value that
  \<open>+date\<close> reads.
\<close>

definition timeClip :: "int \<Rightarrow> jsnum" where
  "timeClip t = (if \<bar>t\<bar> \<le> 8640000000000000 then Num (of_int t) else NaN)"

text \<open>
  A timestamp string of the wire format, as the two operations the code applies to it
  (truthiness and \<open>new Date(s)\<close>) can tell strings apart: \<open>DateTime t\<close> is a
  well-formed date-time string denoting the instant \<open>t\<close>; \<open>Unparsable s\<close> is any other
  string \<open>s\<close>, for which \<open>new Date(s)\<close> is an invalid date. A missing property
  (\<open>undefined\<close>) is \<open>None\<close>.
\<close>

datatype datestring = DateTime int | Unparsable string

fun truthy :: "datestring option \<Rightarrow> bool" where
  "truthy None = False"
| "truthy (Some (Unparsable s)) = (s \<noteq> [])"
| "truthy (Some (DateTime t)) = True"

text \<open>\<open>a || b\<close>\<close>

definition js_or :: "datestring option \<Rightarrow> datestring option \<Rightarrow> datestring option" where
  "js_or a b = (if truthy a then a else b)"

text \<open>\<open>+new Date(x)\<close>: the time value of the date, \<open>NaN\<close> for an invalid date.\<close>

fun newDate :: "datestring option \<Rightarrow> jsnum" where
  "newDate (Some (DateTime t)) = timeClip t"
| "newDate _ = NaN"

text \<open>
  Number to string for the naturals (\<open>`${n}`\<close>), and \<open>s.slice(-2)\<close>.
\<close>

definition digit :: "nat \<Rightarrow> char" where
  "digit n = ''0123456789'' ! n"

fun toDecimal :: "nat \<Rightarrow> string" where
  "toDecimal n = (if n < 10 then [digit n] else toDecimal (n div 10) @ [digit (n mod 10)])"

declare toDecimal.simps [simp del]

definition slice_last2 :: "string \<Rightarrow> string" where
  "slice_last2 s = drop (length s - 2) s"

definition newline :: char where
  "newline = CHR 0x0A"

text \<open>The en dash U+2013 of the description lines, in UTF-8.\<close>

definition en_dash :: string where
  "en_dash = [CHR 0xE2, CHR 0x80, CHR 0x93]"

subsection \<open>Events\<close>

record eventtime =
  dateTime :: int
  timeZone :: string

record private_props =
  completed :: "string option"

record extended_props =
  private_props :: "private_props option"

text \<open>
  An event resource of the calendar. \<open>event_id\<close> is the opaque identifier the service
  assigns; \<open>None\<close> is a property the object does not have.
\<close>

record event =
  event_id :: nat
  summary :: string
  description :: "string option"
  start :: eventtime
  end_time :: eventtime
  updated :: "datestring option"
  created :: "datestring option"
  extendedProperties :: "extended_props option"

subsection \<open>The logger object\<close>

text \<open>An overridable string: a literal or a function of the calendar title.\<close>

datatype logname = Literal string | Template "string \<Rightarrow> string"

record strings =
  activityStarted :: logname
  activityInProgress :: logname
  activityConcluded :: logname
  activityLogged :: logname
  closedDueToInactivity :: logname

text \<open>
  What an operation can reject with: the \<open>err\<close> a remote call hands to its callback
  (or the rejected connection), an \<open>Error\<close> the code makes itself, with its message,
  and the \<open>TypeError\<close> of reading a property of \<open>undefined\<close>.
\<close>

datatype error = ApiError string | Error string | TypeError

text \<open>
  \<open>calendarConnection\<close> is the promise made by the constructor, as every operation
  finds it when it awaits it: resolved (\<open>None\<close>) or rejected with an error.
  \<open>minutesUntilInactivity\<close> is a number: whatever number above zero the caller gave,
  a whole number of minutes or not, or the default.
\<close>

record logger =
  calendarSummary :: string
  minutesUntilInactivity :: jsnum
  strings :: strings
  calendarConnection :: "error option"

definition getDefaultStrings :: strings where
  "getDefaultStrings = \<lparr>
     activityStarted = Template (\<lambda>projectName. ''Started working on '' @ projectName),
     activityInProgress = Template (\<lambda>projectName. ''Working on '' @ projectName),
     activityConcluded = Template (\<lambda>projectName. ''Worked on '' @ projectName),
     activityLogged = Template (\<lambda>projectName. ''Activity in '' @ projectName),
     closedDueToInactivity = Template (\<lambda>projectName. ''(closed due to inactivity)'') \<rparr>"

definition msUntilInactivity :: "logger \<Rightarrow> jsnum" where
  "msUntilInactivity this = js_times (js_times (minutesUntilInactivity this) (Num 1000)) (Num 60)"

definition getLogName :: "logger \<Rightarrow> logname \<Rightarrow> string" where
  "getLogName this logName =
     (case logName of Template f \<Rightarrow> f (calendarSummary this) | Literal s \<Rightarrow> s)"

text \<open>
  The option setter: a value is taken only when it is a number above zero; otherwise the
  default of \<open>setDefaults\<close> stays. (\<open>None\<close>: the option was not given or is no number.)
\<close>

definition setMinutesUntilInactivity :: "jsnum option \<Rightarrow> logger \<Rightarrow> logger" where
  "setMinutesUntilInactivity minutes this =
     (case minutes of
        Some m \<Rightarrow> if js_gt m (Num 0) then this\<lparr>minutesUntilInactivity := m\<rparr> else this
      | None \<Rightarrow> this)"

subsection \<open>The inactivity policy\<close>

definition hasInactivity :: "logger \<Rightarrow> event \<Rightarrow> int \<Rightarrow> bool" where
  "hasInactivity this latestIncompleteLogEvent currentTime =
     (let lastActivity = newDate (js_or (updated latestIncompleteLogEvent)
                                        (created latestIncompleteLogEvent))
      in js_gt (js_minus (timeClip currentTime) lastActivity) (msUntilInactivity this))"

subsection \<open>The environment: clock, time zone, remote failures\<close>

text \<open>
  What the code reads from outside itself. Every reading of the clock (\<open>new Date()\<close>)
  and every remote call is one interaction with the environment; interactions are numbered
  in the order they happen. \<open>clock n\<close> is the wall-clock time of interaction \<open>n\<close>;
  \<open>fault n\<close> is the error with which interaction \<open>n\<close>, when it is a remote call,
  fails (\<open>None\<close>: it succeeds). \<open>localTZA t\<close> is the offset of local time from UTC at
  the instant \<open>t\<close>, in milliseconds, and \<open>tzGuess\<close> the name \<open>moment.tz.guess()\<close> gives.
\<close>

record env =
  clock :: "nat \<Rightarrow> int"
  fault :: "nat \<Rightarrow> string option"
  localTZA :: "int \<Rightarrow> int"
  tzGuess :: string

text \<open>\<open>date.getHours()\<close> and \<open>date.getMinutes()\<close>: hour and minute of local time.\<close>

definition getHours :: "env \<Rightarrow> int \<Rightarrow> nat" where
  "getHours env date = nat (((date + localTZA env date) div 3600000) mod 24)"

definition getMinutes :: "env \<Rightarrow> int \<Rightarrow> nat" where
  "getMinutes env date = nat (((date + localTZA env date) div 60000) mod 60)"

subsection \<open>The description log\<close>

text \<open>
  The third parameter defaults to the empty string when the caller passes \<open>undefined\<close>
  (an event without description, or no argument at all).
\<close>

definition addToDescription :: "env \<Rightarrow> int \<Rightarrow> string \<Rightarrow> string option \<Rightarrow> string" where
  "addToDescription env date activity descr =
     (let descr0 = (case descr of None \<Rightarrow> [] | Some d \<Rightarrow> d);
          descr1 = (if descr0 \<noteq> [] then descr0 @ [newline] else descr0);
          hh = slice_last2 (''0'' @ toDecimal (getHours env date));
          mm = slice_last2 (''0'' @ toDecimal (getMinutes env date))
      in descr1 @ hh @ '':'' @ mm @ '' '' @ en_dash @ '' '' @ activity)"

subsection \<open>The open marker\<close>

text \<open>
  The body of the \<open>try\<close> block: \<open>event.extendedProperties.private\<close> is read and
  destructured; reading a property of \<open>undefined\<close> throws.
\<close>

definition readCompleted :: "event \<Rightarrow> error + string option" where
  "readCompleted event =
     (case extendedProperties event of
        None \<Rightarrow> Inl TypeError
      | Some ext \<Rightarrow>
          (case private_props ext of
             None \<Rightarrow> Inl TypeError
           | Some priv \<Rightarrow> Inr (completed priv)))"

text \<open>
  The predicate handed to \<open>find\<close>: the \<open>catch\<close> swallows the error and the
  function then returns \<open>undefined\<close>, which \<open>find\<close> takes as false.
\<close>

definition incomplete :: "event \<Rightarrow> bool" where
  "incomplete event =
     (case readCompleted event of
        Inr marker \<Rightarrow> marker = Some ''false''
      | Inl err \<Rightarrow> False)"

text \<open>The callback of \<open>events.list\<close>, on the error or the items of the response.\<close>

definition listCallback :: "error + event list \<Rightarrow> error + event" where
  "listCallback response =
     (case response of
        Inl err \<Rightarrow> Inl err
      | Inr events \<Rightarrow>
          if events \<noteq> [] then
            (case find incomplete (rev events) of
               Some latestIncompleteLogEvent \<Rightarrow> Inr latestIncompleteLogEvent
             | None \<Rightarrow> Inl (Error ''No latest incomplete event found in the past 7 days.''))
          else Inl (Error ''Found no events in the past 7 days.''))"

subsection \<open>The remote calendar\<close>

text \<open>
  The state the operations run in: the events of the one calendar the logger writes to,
  in the order they were inserted, and the number of interactions with the environment
  so far.
\<close>

record world =
  items :: "event list"
  ticks :: nat

text \<open>The resource of an \<open>events.insert\<close> and of an \<open>events.patch\<close> request.\<close>

record insert_resource =
  i_summary :: string
  i_description :: string
  i_start :: eventtime
  i_end :: eventtime
  i_extendedProperties :: extended_props

record patch_resource =
  p_summary :: string
  p_description :: string
  p_end :: "eventtime option"
  p_extendedProperties :: extended_props

text \<open>
  Modelled from the spec: the identifier of an event is opaque and assigned by the remote
  store, which is no part of the repository. The model takes the number above every
  stored identifier, so that a created event has an identifier no stored event has.
\<close>

definition freshId :: "event list \<Rightarrow> nat" where
  "freshId evs = Suc (foldr max (map event_id evs) 0)"

text \<open>
  Modelled from the spec: the event that \<open>createEvent\<close> of the remote store makes of a
  draft. It has the fields of the draft; \<open>created\<close> and \<open>updated\<close> are assigned by
  the store, here the time of the call.
\<close>

definition inserted :: "nat \<Rightarrow> int \<Rightarrow> insert_resource \<Rightarrow> event" where
  "inserted ident stamp resource = \<lparr>
     event_id = ident,
     summary = i_summary resource,
     description = Some (i_description resource),
     start = i_start resource,
     end_time = i_end resource,
     updated = Some (DateTime stamp),
     created = Some (DateTime stamp),
     extendedProperties = Some (i_extendedProperties resource) \<rparr>"

text \<open>
  Modelled from the spec: what \<open>patchEvent\<close> of the remote store does to an event. The
  fields the request carries replace the event's; the identifier, the start, \<open>created\<close>
  and, when the request has no end, the end stay; \<open>updated\<close> becomes the time of the
  call.
\<close>

definition patched :: "int \<Rightarrow> patch_resource \<Rightarrow> event \<Rightarrow> event" where
  "patched stamp resource ev =
     ev\<lparr> summary := p_summary resource,
         description := Some (p_description resource),
         end_time := (case p_end resource of None \<Rightarrow> end_time ev | Some e \<Rightarrow> e),
         updated := Some (DateTime stamp),
         extendedProperties := Some (p_extendedProperties resource) \<rparr>"

text \<open>
  Modelled from the spec: the window of \<open>listEvents\<close> of the remote store, which
  selects by start time, and the key of its order.
\<close>

definition startsWithin :: "int \<Rightarrow> int \<Rightarrow> event \<Rightarrow> bool" where
  "startsWithin timeMin timeMax e \<longleftrightarrow>
     timeMin \<le> dateTime (start e) \<and> dateTime (start e) \<le> timeMax"

definition startTime :: "event \<Rightarrow> int" where
  "startTime e = dateTime (start e)"

text \<open>
  Modelled from the spec: \<open>listEvents\<close> of the remote store (\<open>events.list\<close> of the
  calendar service, which is no part of the repository). It gives the events whose start
  lies in the window, ascending by start time. Every remote call is one interaction and
  fails with the error the environment has for it.
\<close>

definition events_list :: "env \<Rightarrow> int \<Rightarrow> int \<Rightarrow> world \<Rightarrow> (error + event list) \<times> world" where
  "events_list env timeMin timeMax w =
     (let n = ticks w; w' = w\<lparr>ticks := Suc n\<rparr>
      in case fault env n of
           Some msg \<Rightarrow> (Inl (ApiError msg), w')
         | None \<Rightarrow>
             (Inr (sort_key startTime (filter (startsWithin timeMin timeMax) (items w))), w'))"

text \<open>
  Modelled from the spec: \<open>createEvent\<close> of the remote store (\<open>events.insert\<close>). It
  stores the new event after the others and answers with it.
\<close>

definition events_insert :: "env \<Rightarrow> insert_resource \<Rightarrow> world \<Rightarrow> (error + event) \<times> world" where
  "events_insert env resource w =
     (let n = ticks w; w' = w\<lparr>ticks := Suc n\<rparr>
      in case fault env n of
           Some msg \<Rightarrow> (Inl (ApiError msg), w')
         | None \<Rightarrow>
             (let ev = inserted (freshId (items w)) (clock env n) resource
              in (Inr ev, w'\<lparr>items := items w @ [ev]\<rparr>)))"

text \<open>
  Modelled from the spec: \<open>patchEvent\<close> of the remote store (\<open>events.patch\<close>). It
  patches the event of the given identifier and answers with it; an identifier no event
  has is an error of the call.
\<close>

definition events_patch :: "env \<Rightarrow> nat \<Rightarrow> patch_resource \<Rightarrow> world \<Rightarrow> (error + event) \<times> world" where
  "events_patch env eventId resource w =
     (let n = ticks w; w' = w\<lparr>ticks := Suc n\<rparr>
      in case fault env n of
           Some msg \<Rightarrow> (Inl (ApiError msg), w')
         | None \<Rightarrow>
             (case find (\<lambda>e. event_id e = eventId) (items w) of
                None \<Rightarrow> (Inl (ApiError ''Not Found''), w')
              | Some ev \<Rightarrow>
                  (Inr (patched (clock env n) resource ev),
                   w'\<lparr>items := map (\<lambda>e. if event_id e = eventId
                                           then patched (clock env n) resource e else e)
                                   (items w)\<rparr>)))"

subsection \<open>The operations\<close>

text \<open>
  \<open>getCurrentTime\<close> reads the clock. The ISO string of an instant
  (\<open>toISOString\<close>) is kept as the instant it denotes.
\<close>

definition getCurrentTime :: "env \<Rightarrow> world \<Rightarrow> (int \<times> string) \<times> world" where
  "getCurrentTime env w = ((clock env (ticks w), tzGuess env), w\<lparr>ticks := Suc (ticks w)\<rparr>)"

definition marker :: "string \<Rightarrow> extended_props" where
  "marker v = \<lparr> private_props = Some \<lparr> completed = Some v \<rparr> \<rparr>"

definition startResource :: "env \<Rightarrow> logger \<Rightarrow> int \<Rightarrow> string \<Rightarrow> insert_resource" where
  "startResource env this startedAt tz =
     (let logName = getLogName this (activityStarted (strings this))
      in \<lparr> i_summary = logName,
           i_description = addToDescription env startedAt logName None,
           i_start = \<lparr> dateTime = startedAt, timeZone = tz \<rparr>,
           i_end = \<lparr> dateTime = startedAt + 1000, timeZone = tz \<rparr>,
           i_extendedProperties = marker ''false'' \<rparr>)"

definition logStart :: "env \<Rightarrow> logger \<Rightarrow> world \<Rightarrow> (error + unit) \<times> world" where
  "logStart env this w =
     (case calendarConnection this of
        Some err \<Rightarrow> (Inl err, w)
      | None \<Rightarrow>
          (case getCurrentTime env w of
             ((startedAt, tz), w1) \<Rightarrow>
               (case events_insert env (startResource env this startedAt tz) w1 of
                  (Inl err, w2) \<Rightarrow> (Inl err, w2)
                | (Inr response, w2) \<Rightarrow> (Inr (), w2))))"

definition getLatestIncompleteLogEvent ::
    "env \<Rightarrow> logger \<Rightarrow> int \<Rightarrow> string \<Rightarrow> world \<Rightarrow> (error + event) \<times> world" where
  "getLatestIncompleteLogEvent env this currentTime tz w =
     (case calendarConnection this of
        Some err \<Rightarrow> (Inl err, w)
      | None \<Rightarrow>
          (case events_list env (currentTime - 1000 * 60 * 60 * 24 * 7) currentTime w of
             (response, w1) \<Rightarrow> (listCallback response, w1)))"

definition inactivityPatch :: "env \<Rightarrow> logger \<Rightarrow> event \<Rightarrow> int \<Rightarrow> patch_resource" where
  "inactivityPatch env this latestIncompleteLogEvent activityTime =
     (let concludedLogName = getLogName this (activityConcluded (strings this));
          closedDueToInactivityName = getLogName this (closedDueToInactivity (strings this))
      in \<lparr> p_summary = concludedLogName,
           p_description = addToDescription env activityTime
                             (concludedLogName @ '' '' @ closedDueToInactivityName)
                             (description latestIncompleteLogEvent),
           p_end = None,
           p_extendedProperties = marker ''true'' \<rparr>)"

definition logEndDueToInactivity ::
    "env \<Rightarrow> logger \<Rightarrow> event \<Rightarrow> int \<Rightarrow> world \<Rightarrow> (error + unit) \<times> world" where
  "logEndDueToInactivity env this latestIncompleteLogEvent activityTime w =
     (case calendarConnection this of
        Some err \<Rightarrow> (Inl err, w)
      | None \<Rightarrow>
          (case events_patch env (event_id latestIncompleteLogEvent)
                  (inactivityPatch env this latestIncompleteLogEvent activityTime) w of
             (Inl err, w1) \<Rightarrow> (Inl err, w1)
           | (Inr response, w1) \<Rightarrow> (Inr (), w1)))"

definition activityPatch ::
    "env \<Rightarrow> logger \<Rightarrow> string \<Rightarrow> event \<Rightarrow> int \<Rightarrow> string \<Rightarrow> patch_resource" where
  "activityPatch env this activityDescription latestIncompleteLogEvent activityTime tz =
     \<lparr> p_summary = getLogName this (activityInProgress (strings this)),
       p_description = addToDescription env activityTime activityDescription
                         (description latestIncompleteLogEvent),
       p_end = Some \<lparr> dateTime = activityTime, timeZone = tz \<rparr>,
       p_extendedProperties = marker ''false'' \<rparr>"

text \<open>
  \<open>logActivity\<close> calls itself after a lapse, and nothing in the code bounds how often.
  The first argument is the call depth allowed: \<open>None\<close> says that the call would go
  deeper. The message is the argument the caller passes (the default of the parameter,
  a function of the project name, is outside the model).
\<close>

fun logActivity ::
    "nat \<Rightarrow> env \<Rightarrow> logger \<Rightarrow> string \<Rightarrow> world \<Rightarrow> ((error + unit) \<times> world) option" where
  "logActivity 0 env this activityDescription w = None"
| "logActivity (Suc depth) env this activityDescription w =
     (case calendarConnection this of
        Some err \<Rightarrow> Some (Inl err, w)
      | None \<Rightarrow>
          (case getCurrentTime env w of
             ((activityTime, tz), w1) \<Rightarrow>
               (case getLatestIncompleteLogEvent env this activityTime tz w1 of
                  (Inl err, w2) \<Rightarrow> Some (Inl err, w2)
                | (Inr latestIncompleteLogEvent, w2) \<Rightarrow>
                    if hasInactivity this latestIncompleteLogEvent activityTime then
                      (case logEndDueToInactivity env this latestIncompleteLogEvent activityTime w2 of
                         (Inl err, w3) \<Rightarrow> Some (Inl err, w3)
                       | (Inr u, w3) \<Rightarrow>
                           (case logStart env this w3 of
                              (Inl err, w4) \<Rightarrow> Some (Inl err, w4)
                            | (Inr u', w4) \<Rightarrow> logActivity depth env this activityDescription w4))
                    else
                      (case events_patch env (event_id latestIncompleteLogEvent)
                              (activityPatch env this activityDescription
                                 latestIncompleteLogEvent activityTime tz) w2 of
                         (Inl err, w3) \<Rightarrow> Some (Inl err, w3)
                       | (Inr response, w3) \<Rightarrow> Some (Inr (), w3)))))"

definition concludePatch :: "env \<Rightarrow> logger \<Rightarrow> event \<Rightarrow> int \<Rightarrow> string \<Rightarrow> patch_resource" where
  "concludePatch env this latestIncompleteLogEvent endTime tz =
     (let logName = getLogName this (activityConcluded (strings this));
          concludedLogName = getLogName this (activityConcluded (strings this))
      in \<lparr> p_summary = logName,
           p_description = addToDescription env endTime concludedLogName
                             (description latestIncompleteLogEvent),
           p_end = Some \<lparr> dateTime = endTime, timeZone = tz \<rparr>,
           p_extendedProperties = marker ''true'' \<rparr>)"

definition logEnd :: "env \<Rightarrow> logger \<Rightarrow> world \<Rightarrow> (error + unit) \<times> world" where
  "logEnd env this w =
     (case calendarConnection this of
        Some err \<Rightarrow> (Inl err, w)
      | None \<Rightarrow>
          (case getCurrentTime env w of
             ((endTime, tz), w1) \<Rightarrow>
               (case getLatestIncompleteLogEvent env this endTime tz w1 of
                  (Inl err, w2) \<Rightarrow> (Inl err, w2)
                | (Inr latestIncompleteLogEvent, w2) \<Rightarrow>
                    if hasInactivity this latestIncompleteLogEvent endTime then
                      logEndDueToInactivity env this latestIncompleteLogEvent endTime w2
                    else
                      (case events_patch env (event_id latestIncompleteLogEvent)
                              (concludePatch env this latestIncompleteLogEvent endTime tz) w2 of
                         (Inl err, w3) \<Rightarrow> (Inl err, w3)
                       | (Inr response, w3) \<Rightarrow> (Inr (), w3)))))"

subsection \<open>Notions the statements use\<close>

text \<open>The lookback window of the resolver: the seven days up to \<open>now\<close>.\<close>

abbreviation inLookback :: "int \<Rightarrow> event \<Rightarrow> bool" where
  "inLookback now \<equiv> startsWithin (now - 604800000) now"

text \<open>
  An exact duration \<open>x\<close> is within the threshold \<open>t\<close>: at most \<open>t\<close>, where every
  duration is within an infinite threshold and none within \<open>NaN\<close>.
\<close>

fun withinThreshold :: "rat \<Rightarrow> jsnum \<Rightarrow> bool" where
  "withinThreshold x (Num t) = (x \<le> t)"
| "withinThreshold x PosInf = True"
| "withinThreshold x NegInf = False"
| "withinThreshold x NaN = False"

text \<open>
  What the policy answers at the time \<open>now\<close> for an event last written at \<open>stamp\<close>.
\<close>

definition lapsedSince :: "logger \<Rightarrow> int \<Rightarrow> int \<Rightarrow> bool" where
  "lapsedSince this stamp now =
     js_gt (js_minus (timeClip now) (timeClip stamp)) (msUntilInactivity this)"

text \<open>
  The event \<open>logStart\<close> creates in the world \<open>w\<close>: the clock is read at interaction
  \<open>ticks w\<close> and the insert is the next interaction.
\<close>

definition startedEvent :: "env \<Rightarrow> logger \<Rightarrow> world \<Rightarrow> event" where
  "startedEvent env this w =
     inserted (freshId (items w)) (clock env (Suc (ticks w)))
       (startResource env this (clock env (ticks w)) (tzGuess env))"

text \<open>
  The description log as the specification reads it: the lines of a description, the
  time label \<open>HH:MM\<close> of an instant with both numbers padded to two digits, and the
  message of the last line, which is what follows the label, a space, the dash and a
  space (ten bytes).
\<close>

fun splitLines :: "string \<Rightarrow> string list" where
  "splitLines [] = [[]]"
| "splitLines (c # cs) =
     (if c = newline then [] # splitLines cs
      else (case splitLines cs of [] \<Rightarrow> [[c]] | l # ls \<Rightarrow> (c # l) # ls))"

definition timeLabel :: "env \<Rightarrow> int \<Rightarrow> string" where
  "timeLabel env t =
     [digit (getHours env t div 10), digit (getHours env t mod 10), CHR '':'',
      digit (getMinutes env t div 10), digit (getMinutes env t mod 10)]"

definition logLine :: "env \<Rightarrow> int \<Rightarrow> string \<Rightarrow> string" where
  "logLine env t message = timeLabel env t @ '' '' @ en_dash @ '' '' @ message"

definition lastLineMessage :: "string \<Rightarrow> string" where
  "lastLineMessage descr = drop 10 (last (splitLines descr))"

subsection \<open>A concrete calendar for the examples\<close>

definition exLogger :: logger where
  "exLogger = \<lparr> calendarSummary = ''proj'', minutesUntilInactivity = Num 10,
       strings = getDefaultStrings, calendarConnection = None \<rparr>"

text \<open>One second between interactions, local time one hour ahead of UTC, no failures.\<close>

definition exEnv :: env where
  "exEnv = \<lparr> clock = (\<lambda>n. 1000 * int n), fault = (\<lambda>n. None),
       localTZA = (\<lambda>t. 3600000), tzGuess = ''Europe/Amsterdam'' \<rparr>"

text \<open>An event with the given start and marker, last written at \<open>stamp\<close>.\<close>

definition exEvent :: "nat \<Rightarrow> int \<Rightarrow> int \<Rightarrow> string \<Rightarrow> event" where
  "exEvent ident startedAt stamp v = \<lparr>
     event_id = ident,
     summary = ''Working on proj'',
     description = Some ''09:00 - entry'',
     start = \<lparr> dateTime = startedAt, timeZone = ''UTC'' \<rparr>,
     end_time = \<lparr> dateTime = startedAt + 1000, timeZone = ''UTC'' \<rparr>,
     updated = Some (DateTime stamp),
     created = Some (DateTime startedAt),
     extendedProperties = Some (marker v) \<rparr>"

text \<open>An open event whose timestamps are no dates.\<close>

definition garbledEvent :: event where
  "garbledEvent = (exEvent 1 0 0 ''false'')
     \<lparr> updated := Some (Unparsable ''yesterday''), created := Some (Unparsable ''n/a'') \<rparr>"

text \<open>An event without extended properties, and one without the private part.\<close>

definition bareEvent :: event where
  "bareEvent = (exEvent 7 50 50 ''false'') \<lparr> extendedProperties := None \<rparr>"

definition publicOnlyEvent :: event where
  "publicOnlyEvent = (exEvent 8 60 60 ''false'')
     \<lparr> extendedProperties := Some \<lparr> private_props = None \<rparr> \<rparr>"

text \<open>A calendar whose only event is closed, and one whose only event is open.\<close>

definition closedWorld :: world where
  "closedWorld = \<lparr> items = [exEvent 1 0 0 ''true''], ticks = 0 \<rparr>"

definition staleWorld :: world where
  "staleWorld = \<lparr> items = [exEvent 1 0 0 ''false''], ticks = 0 \<rparr>"

text \<open>The events of a calendar by identifier, each with the result of the open-marker test.\<close>

definition openStates :: "world \<Rightarrow> (nat \<times> bool) list" where
  "openStates w = map (\<lambda>e. (event_id e, incomplete e)) (items w)"

text \<open>
  The same pace sixteen minutes later, and a clock that is eleven minutes further on at
  the sixth interaction (the machine sleeps between the restart and the retry).
\<close>

definition lateEnv :: env where
  "lateEnv = \<lparr> clock = (\<lambda>n. 960000 + 1000 * int n), fault = (\<lambda>n. None),
       localTZA = (\<lambda>t. 3600000), tzGuess = ''Europe/Amsterdam'' \<rparr>"

definition sleepyEnv :: env where
  "sleepyEnv = \<lparr> clock = (\<lambda>n. if n < 5 then 960000 + 1000 * int n else 1620000 + 1000 * int n),
       fault = (\<lambda>n. None), localTZA = (\<lambda>t. 3600000), tzGuess = ''Europe/Amsterdam'' \<rparr>"

text \<open>
  The worlds of a session without a lapse, begun sixteen minutes after the open event of
  \<open>staleWorld\<close> was last written: start, two reports, end.
\<close>

definition afterStart :: world where
  "afterStart = snd (logStart lateEnv exLogger staleWorld)"

definition afterFirst :: world where
  "afterFirst = (case logActivity (Suc 0) lateEnv exLogger ''edit A'' afterStart of
                   Some (r, w) \<Rightarrow> w | None \<Rightarrow> afterStart)"

definition afterSecond :: world where
  "afterSecond = (case logActivity (Suc 0) lateEnv exLogger ''edit B'' afterFirst of
                   Some (r, w) \<Rightarrow> w | None \<Rightarrow> afterFirst)"

definition afterEnd :: world where
  "afterEnd = snd (logEnd lateEnv exLogger afterSecond)"

text \<open>
  A calendar whose open event starts half a second after the session that is begun on it,
  and the worlds of that session.
\<close>

definition aheadWorld :: world where
  "aheadWorld = \<lparr> items = [exEvent 1 500 500 ''false''], ticks = 0 \<rparr>"

definition aheadStart :: world where
  "aheadStart = snd (logStart exEnv exLogger aheadWorld)"

definition aheadFirst :: world where
  "aheadFirst = (case logActivity (Suc 0) exEnv exLogger ''edit A'' aheadStart of
                   Some (r, w) \<Rightarrow> w | None \<Rightarrow> aheadStart)"

definition aheadSecond :: world where
  "aheadSecond = (case logActivity (Suc 0) exEnv exLogger ''edit B'' aheadFirst of
                   Some (r, w) \<Rightarrow> w | None \<Rightarrow> aheadFirst)"

definition aheadEnd :: world where
  "aheadEnd = snd (logEnd exEnv exLogger aheadSecond)"

text \<open>
  The worlds of a report that finds the session lapsed: after the close, after the
  restart, and at the end of the call.
\<close>

definition lapseClosed :: world where
  "lapseClosed = snd (logEndDueToInactivity lateEnv exLogger (exEvent 1 0 0 ''false'') 960000
                        (staleWorld\<lparr>ticks := 2\<rparr>))"

definition lapseRestarted :: world where
  "lapseRestarted = snd (logStart lateEnv exLogger lapseClosed)"

definition afterLapse :: world where
  "afterLapse = (case logActivity (Suc (Suc 0)) lateEnv exLogger ''edit B'' staleWorld of
                   Some (r, w) \<Rightarrow> w | None \<Rightarrow> staleWorld)"

text \<open>
  A calendar with a second open event, stale as well, whose start lies between the report
  that finds the first one lapsed and the retry; and the worlds of that report after the
  close and after the restart.
\<close>

definition overlapWorld :: world where
  "overlapWorld = \<lparr> items = [exEvent 1 0 0 ''false'', exEvent 2 964500 0 ''false''], ticks = 0 \<rparr>"

definition overlapClosed :: world where
  "overlapClosed = snd (logEndDueToInactivity lateEnv exLogger (exEvent 1 0 0 ''false'') 960000
                          (overlapWorld\<lparr>ticks := 2\<rparr>))"

definition overlapRestarted :: world where
  "overlapRestarted = snd (logStart lateEnv exLogger overlapClosed)"

section \<open>Properties\<close>

subsection \<open>Searching a list from its end\<close>

lemma find_append:
  "find P (xs @ ys) = (case find P xs of None \<Rightarrow> find P ys | Some x \<Rightarrow> Some x)"
  by (induction xs) auto

lemma find_Some_set: "find P xs = Some x \<Longrightarrow> x \<in> set xs \<and> P x"
  by (induction xs) (auto split: if_splits)

lemma find_rev_sorted:
  "sorted (map k xs) \<Longrightarrow> find P (rev xs) = Some x \<Longrightarrow> y \<in> set xs \<Longrightarrow> P y \<Longrightarrow> k y \<le> k x"
proof (induction xs)
  case Nil
  then show ?case by simp
next
  case (Cons a xs)
  show ?case
  proof (cases "find P (rev xs)")
    case None
    then have "\<forall>z\<in>set xs. \<not> P z" by (simp add: find_None_iff)
    with Cons.prems None show ?thesis by (auto simp: find_append split: if_splits)
  next
    case (Some z)
    with Cons.prems have xz: "x = z" by (simp add: find_append)
    have "z \<in> set xs" using find_Some_set [OF Some] by simp
    with Cons.prems(1) have "k a \<le> k z" by simp
    with Cons xz Some show ?thesis by auto
  qed
qed


subsection \<open>Rounding to a double\<close>

lemma rhe_of_int [simp]: "roundHalfEven (of_int k) = k"
  by (simp add: roundHalfEven_def)

lemma rhe_bounds: "\<lfloor>y\<rfloor> \<le> roundHalfEven y" "roundHalfEven y \<le> \<lfloor>y\<rfloor> + 1"
  by (simp_all add: roundHalfEven_def Let_def)

lemma rhe_le: "y \<le> of_int N \<Longrightarrow> roundHalfEven y \<le> N"
proof -
  assume le: "y \<le> of_int N"
  then have f: "\<lfloor>y\<rfloor> \<le> N" using floor_mono [of y "of_int N"] by simp
  show ?thesis
  proof (cases "\<lfloor>y\<rfloor> = N")
    case True
    with le have "y = of_int N" using of_int_floor_le [of y] by linarith
    then show ?thesis by simp
  next
    case False
    with f have "\<lfloor>y\<rfloor> + 1 \<le> N" by simp
    with rhe_bounds(2) [of y] show ?thesis by linarith
  qed
qed

lemma rhe_ge: "of_int N \<le> y \<Longrightarrow> N \<le> roundHalfEven y"
proof -
  assume "of_int N \<le> y"
  then have "N \<le> \<lfloor>y\<rfloor>" by (simp add: le_floor_iff)
  with rhe_bounds(1) [of y] show ?thesis by linarith
qed

lemma rhe_mono: "y \<le> z \<Longrightarrow> roundHalfEven y \<le> roundHalfEven z"
proof -
  assume le: "y \<le> z"
  then have f: "\<lfloor>y\<rfloor> \<le> \<lfloor>z\<rfloor>" by (rule floor_mono)
  show ?thesis
  proof (cases "\<lfloor>y\<rfloor> = \<lfloor>z\<rfloor>")
    case True
    with le show ?thesis by (auto simp: roundHalfEven_def Let_def)
  next
    case False
    with f have "\<lfloor>y\<rfloor> + 1 \<le> \<lfloor>z\<rfloor>" by simp
    with rhe_bounds(2) [of y] rhe_bounds(1) [of z] show ?thesis by linarith
  qed
qed

lemma binade_bounds:
  assumes "0 < x"
  shows "2 powi binade x \<le> x" and "x < 2 powi (binade x + 1)"
proof -
  have "2 powi binade x \<le> x \<and> x < 2 powi (binade x + 1)"
  proof (cases "1 \<le> x")
    case True
    define n where "n = \<lfloor>x\<rfloor>"
    from True have n: "0 < n" by (simp add: n_def)
    from bitlen_bounds [OF n] have lo: "2 ^ nat (bitlen n - 1) \<le> n" and hi: "n < 2 ^ nat (bitlen n)"
      by simp_all
    from n have bl: "1 \<le> bitlen n" using bitlen_nonneg [of n] bitlen_eq_zero_iff [of n] by linarith
    have b: "binade x = bitlen n - 1" using True by (simp add: binade_def n_def)
    have "(2 ^ nat (bitlen n - 1) :: rat) \<le> of_int n" using lo by simp
    also have "of_int n \<le> x" by (simp add: n_def)
    finally have l: "2 powi binade x \<le> x" using bl by (simp add: b power_int_nonneg_exp)
    from hi have "n + 1 \<le> 2 ^ nat (bitlen n)" by simp
    then have "(of_int (n + 1) :: rat) \<le> 2 ^ nat (bitlen n)"
      by (simp only: of_int_le_numeral_power_cancel_iff)
    moreover have "x < of_int (n + 1)" unfolding n_def by linarith
    ultimately have "x < 2 ^ nat (bitlen n)" by linarith
    then have "x < 2 powi (binade x + 1)" using bl by (simp add: b power_int_nonneg_exp)
    with l show ?thesis by simp
  next
    case False
    define y where "y = 1 / x"
    define c where "c = \<lceil>y\<rceil>"
    define k where "k = bitlen (c - 1)"
    from False assms have y1: "1 < y" by (simp add: y_def)
    then have c2: "2 \<le> c" unfolding c_def by linarith
    then have c1: "0 < c - 1" by simp
    from bitlen_bounds [OF c1] have lo: "2 ^ nat (k - 1) \<le> c - 1" and hi: "c - 1 < 2 ^ nat k"
      by (simp_all add: k_def)
    from c1 have k1: "1 \<le> k" using bitlen_nonneg [of "c - 1"] bitlen_eq_zero_iff [of "c - 1"]
      unfolding k_def by linarith
    have b: "binade x = - k" using False by (simp add: binade_def k_def c_def y_def)
    have xy: "x = 1 / y" using assms by (simp add: y_def)
    have yc: "y \<le> of_int c" "of_int (c - 1) < y" unfolding c_def by linarith+
    from hi have "c \<le> 2 ^ nat k" by simp
    then have "(of_int c :: rat) \<le> 2 ^ nat k" by simp
    with yc(1) have "y \<le> 2 ^ nat k" by linarith
    with y1 have "1 / 2 ^ nat k \<le> 1 / y" by (simp add: frac_le)
    moreover have "(2::rat) powi binade x = 1 / 2 ^ nat k" using k1
      by (simp add: b power_int_minus_divide power_int_nonneg_exp)
    ultimately have l: "2 powi binade x \<le> x" using xy by metis
    have "(2 ^ nat (k - 1) :: rat) \<le> of_int (c - 1)" using lo
      by (simp only: numeral_power_le_of_int_cancel_iff)
    with yc(2) have "2 ^ nat (k - 1) < y" by linarith
    then have "1 / y < 1 / 2 ^ nat (k - 1)" by (simp add: frac_less2)
    moreover have "binade x + 1 = - (k - 1)" by (simp add: b)
    then have "(2::rat) powi (binade x + 1) = 1 / 2 ^ nat (k - 1)" using k1
      by (simp only: power_int_minus_divide) (simp add: power_int_nonneg_exp)
    ultimately have "x < 2 powi (binade x + 1)" using xy by metis
    with l show ?thesis by simp
  qed
  then show "2 powi binade x \<le> x" and "x < 2 powi (binade x + 1)" by simp_all
qed

lemma binade_unique:
  assumes "0 < x" and "2 powi e \<le> x" and "x < 2 powi (e + 1)"
  shows "binade x = e"
proof (rule ccontr)
  assume ne: "binade x \<noteq> e"
  note b = binade_bounds [OF assms(1)]
  show False
  proof (cases "binade x < e")
    case True
    then have "(2::rat) powi (binade x + 1) \<le> 2 powi e" by (intro power_int_increasing) simp_all
    with b(2) assms(2) show False by linarith
  next
    case False
    with ne have "e + 1 \<le> binade x" by simp
    then have "(2::rat) powi (e + 1) \<le> 2 powi binade x" by (intro power_int_increasing) simp_all
    with b(1) assms(3) show False by linarith
  qed
qed

lemma binade_mono:
  assumes "0 < x" and "x \<le> y"
  shows "binade x \<le> binade y"
proof (rule ccontr)
  assume "\<not> binade x \<le> binade y"
  then have "binade y + 1 \<le> binade x" by simp
  then have "(2::rat) powi (binade y + 1) \<le> 2 powi binade x" by (intro power_int_increasing) simp_all
  moreover from assms have "0 < y" by simp
  ultimately show False
    using binade_bounds(2) [of y] binade_bounds(1) [OF assms(1)] assms(2) by linarith
qed


lemma pow2_pos [simp]: "0 < (2::rat) powi e"
  by simp

lemma pow2_diff: "(2::rat) powi a / 2 powi b = 2 powi (a - b)"
  by (simp add: power_int_diff)

lemma pow2_of_int: "0 \<le> e \<Longrightarrow> (2::rat) powi e = of_int (2 ^ nat e)"
  by (simp add: power_int_nonneg_exp)

lemma pow2_le_exp: "(2::rat) powi a \<le> 2 powi b \<Longrightarrow> a \<le> b"
proof (rule ccontr)
  assume le: "(2::rat) powi a \<le> 2 powi b" and "\<not> a \<le> b"
  then have "b < a" by simp
  then have "(2::rat) powi b < 2 powi a" by (intro power_int_strict_increasing) simp_all
  with le show False by simp
qed

lemma roundPos_nonneg: "0 < x \<Longrightarrow> 0 \<le> roundPos x"
proof -
  assume "0 < x"
  then have "of_int 0 \<le> x / 2 powi ulpExponent x" by simp
  then have "0 \<le> roundHalfEven (x / 2 powi ulpExponent x)" by (rule rhe_ge)
  then show ?thesis by (simp add: roundPos_def)
qed

lemma roundPos_exact:
  "x / 2 powi ulpExponent x = of_int n \<Longrightarrow> roundPos x = x"
  by (simp add: roundPos_def) (metis nonzero_eq_divide_eq pow2_pos less_irrefl)

lemma roundPos_le_pow:
  assumes "x \<le> 2 powi m" and "ulpExponent x \<le> m"
  shows "roundPos x \<le> 2 powi m"
proof -
  let ?q = "ulpExponent x"
  from assms(2) have d: "0 \<le> m - ?q" by simp
  from assms(1) have "x / 2 powi ?q \<le> 2 powi m / 2 powi ?q" by (rule divide_right_mono) simp
  also have "(2::rat) powi m / 2 powi ?q = of_int (2 ^ nat (m - ?q))"
    using d by (simp only: pow2_diff pow2_of_int)
  finally have "roundHalfEven (x / 2 powi ?q) \<le> 2 ^ nat (m - ?q)" by (rule rhe_le)
  then have "(of_int (roundHalfEven (x / 2 powi ?q)) :: rat) \<le> of_int (2 ^ nat (m - ?q))"
    by (simp only: of_int_le_iff)
  then have "roundPos x \<le> of_int (2 ^ nat (m - ?q)) * 2 powi ?q"
    unfolding roundPos_def by (rule mult_right_mono) simp
  also have "of_int (2 ^ nat (m - ?q)) * 2 powi ?q = (2::rat) powi (m - ?q) * 2 powi ?q"
    using d by (simp only: pow2_of_int)
  also have "\<dots> = 2 powi (m - ?q + ?q)" by (rule power_int_add [symmetric]) simp
  finally show ?thesis by (simp only: diff_add_cancel)
qed

lemma roundPos_ge_pow:
  assumes "2 powi m \<le> x" and "ulpExponent x \<le> m"
  shows "2 powi m \<le> roundPos x"
proof -
  let ?q = "ulpExponent x"
  from assms(2) have d: "0 \<le> m - ?q" by simp
  from assms(1) have "2 powi m / 2 powi ?q \<le> x / 2 powi ?q" by (rule divide_right_mono) simp
  moreover have "(2::rat) powi m / 2 powi ?q = of_int (2 ^ nat (m - ?q))"
    using d by (simp only: pow2_diff pow2_of_int)
  ultimately have "of_int (2 ^ nat (m - ?q)) \<le> x / 2 powi ?q" by (simp only:)
  then have "2 ^ nat (m - ?q) \<le> roundHalfEven (x / 2 powi ?q)" by (rule rhe_ge)
  then have "(of_int (2 ^ nat (m - ?q)) :: rat) \<le> of_int (roundHalfEven (x / 2 powi ?q))"
    by (simp only: of_int_le_iff)
  then have "of_int (2 ^ nat (m - ?q)) * 2 powi ?q \<le> roundPos x"
    unfolding roundPos_def by (rule mult_right_mono) simp
  moreover have "of_int (2 ^ nat (m - ?q)) * 2 powi ?q = (2::rat) powi (m - ?q) * 2 powi ?q"
    using d by (simp only: pow2_of_int)
  moreover have "(2::rat) powi (m - ?q) * 2 powi ?q = 2 powi (m - ?q + ?q)"
    by (rule power_int_add [symmetric]) simp
  ultimately show ?thesis by (simp only: diff_add_cancel)
qed

lemma ulpExponent_le_binade: "ulpExponent x \<le> binade x \<or> ulpExponent x = - 1074"
  by (auto simp: ulpExponent_def max_def)

lemma roundPos_mono:
  assumes x: "0 < x" and le: "x \<le> y"
  shows "roundPos x \<le> roundPos y"
proof -
  from x le have y: "0 < y" by simp
  let ?qx = "ulpExponent x" and ?qy = "ulpExponent y"
  have bm: "binade x \<le> binade y" by (rule binade_mono [OF x le])
  then have qle: "?qx \<le> ?qy" by (simp add: ulpExponent_def)
  show ?thesis
  proof (cases "?qx = ?qy")
    case True
    from le have "x / 2 powi ?qx \<le> y / 2 powi ?qx" by (rule divide_right_mono) simp
    then have "roundHalfEven (x / 2 powi ?qx) \<le> roundHalfEven (y / 2 powi ?qx)" by (rule rhe_mono)
    then have "(of_int (roundHalfEven (x / 2 powi ?qx)) :: rat) \<le> of_int (roundHalfEven (y / 2 powi ?qx))"
      by (simp only: of_int_le_iff)
    then show ?thesis unfolding roundPos_def True [symmetric]
      by (rule mult_right_mono) simp
  next
    case False
    with qle have lt: "?qx < ?qy" by simp
    then have bnd: "binade x < binade y" "?qy \<le> binade y" "?qx \<le> binade y"
      using bm by (auto simp: ulpExponent_def max_def split: if_splits)
    have "x < 2 powi (binade x + 1)" by (rule binade_bounds(2) [OF x])
    also have "(2::rat) powi (binade x + 1) \<le> 2 powi binade y"
      using bnd(1) by (intro power_int_increasing) simp_all
    finally have "x \<le> 2 powi binade y" by (rule less_imp_le)
    then have "roundPos x \<le> 2 powi binade y" using bnd(3) by (rule roundPos_le_pow)
    also have "2 powi binade y \<le> roundPos y"
      using binade_bounds(1) [OF y] bnd(2) by (rule roundPos_ge_pow)
    finally show ?thesis .
  qed
qed

lemma roundPos_idem:
  assumes x: "0 < x" and r: "0 < roundPos x"
  shows "roundPos (roundPos x) = roundPos x"
proof -
  let ?q = "ulpExponent x"
  let ?u = "(2::rat) powi ?q"
  let ?r = "roundPos x"
  define n where "n = roundHalfEven (x / ?u)"
  have rn: "?r = of_int n * ?u" by (simp only: roundPos_def n_def)
  have ru: "?r / ?u = of_int n" by (simp only: rn) simp
  note b = binade_bounds [OF x]
  show ?thesis
  proof (cases "- 1022 \<le> binade x")
    case True
    then have q: "?q = binade x - 52" by (simp add: ulpExponent_def)
    then have qb: "?q \<le> binade x" "?q \<le> binade x + 1" by simp_all
    have dn: "2 powi binade x \<le> ?r" using b(1) qb(1) by (rule roundPos_ge_pow)
    have up: "?r \<le> 2 powi (binade x + 1)" using less_imp_le [OF b(2)] qb(2) by (rule roundPos_le_pow)
    show ?thesis
    proof (cases "?r = 2 powi (binade x + 1)")
      case top: True
      have "(2::rat) powi (binade x + 1) < 2 powi (binade x + 1 + 1)"
        by (intro power_int_strict_increasing) simp_all
      then have "binade ?r = binade x + 1"
        using r by (intro binade_unique) (simp_all only: top order_refl)
      then have q': "ulpExponent ?r = binade x + 1 - 52"
        using True by (simp add: ulpExponent_def)
      have "?r / 2 powi ulpExponent ?r = 2 powi (binade x + 1 - ulpExponent ?r)"
        by (simp only: top pow2_diff)
      also have "binade x + 1 - ulpExponent ?r = 52" by (simp add: q')
      also have "(2::rat) powi 52 = of_int (2 ^ 52)" by simp
      finally show ?thesis by (rule roundPos_exact)
    next
      case False
      with up have "?r < 2 powi (binade x + 1)" by simp
      with r dn have "binade ?r = binade x" by (intro binade_unique)
      then have "ulpExponent ?r = ?q" by (simp add: ulpExponent_def)
      then have "?r / 2 powi ulpExponent ?r = of_int n" by (simp only: ru)
      then show ?thesis by (rule roundPos_exact)
    qed
  next
    case False
    then have bl: "binade x + 1 \<le> - 1022" by simp
    from False have q: "?q = - 1074" by (simp add: ulpExponent_def)
    then have qm: "?q \<le> - 1022" by simp
    have "x < 2 powi (binade x + 1)" by (rule b(2))
    also have "(2::rat) powi (binade x + 1) \<le> 2 powi (- 1022)" using bl
      by (rule power_int_increasing) simp
    finally have "x \<le> 2 powi (- 1022)" by (rule less_imp_le)
    then have rle: "?r \<le> 2 powi (- 1022)" using qm by (rule roundPos_le_pow)
    have "2 powi binade ?r \<le> ?r" by (rule binade_bounds(1) [OF r])
    from order_trans [OF this rle] have "binade ?r \<le> - 1022" by (rule pow2_le_exp)
    then have "ulpExponent ?r = - 1074" by (simp add: ulpExponent_def)
    then have "ulpExponent ?r = ?q" by (simp only: q)
    then have "?r / 2 powi ulpExponent ?r = of_int n" by (simp only: ru)
    then show ?thesis by (rule roundPos_exact)
  qed
qed


lemma overflow_iff:
  assumes "0 < r"
  shows "((2::rat) ^ 1024 \<le> r) = (1024 \<le> binade r)"
proof -
  have p: "(2::rat) ^ 1024 = 2 powi 1024"
    using power_int_of_nat [of "2::rat" 1024] by (simp only: of_nat_numeral)
  show ?thesis
  proof
    assume "(2::rat) ^ 1024 \<le> r"
    then have "(2::rat) powi 1024 \<le> r" by (simp only: p)
    also have "r < 2 powi (binade r + 1)" by (rule binade_bounds(2) [OF assms])
    finally have "(2::rat) powi 1024 \<le> 2 powi (binade r + 1)" by (rule less_imp_le)
    then have "1024 \<le> binade r + 1" by (rule pow2_le_exp)
    moreover have "binade r + 1 \<noteq> 1024"
    proof
      assume e: "binade r + 1 = 1024"
      have "r < 2 powi (binade r + 1)" by (rule binade_bounds(2) [OF assms])
      then have "r < 2 powi 1024" by (simp only: e)
      with \<open>(2::rat) powi 1024 \<le> r\<close> show False by linarith
    qed
    ultimately show "1024 \<le> binade r" by linarith
  next
    assume "1024 \<le> binade r"
    then have "(2::rat) powi 1024 \<le> 2 powi binade r" by (intro power_int_increasing) simp_all
    also have "\<dots> \<le> r" by (rule binade_bounds(1) [OF assms])
    finally show "(2::rat) ^ 1024 \<le> r" by (simp only: p)
  qed
qed

text \<open>The same with the overflow test on the exponent, for evaluation.\<close>

lemma toDouble_code [code]:
  "toDouble x =
     (if x = 0 then Num 0
      else if 0 < x then (let r = roundPos x in if 0 < r \<and> 1024 \<le> binade r then PosInf else Num r)
      else (let r = roundPos (- x) in if 0 < r \<and> 1024 \<le> binade r then NegInf else Num (- r)))"
proof -
  have "((2::rat) ^ 1024 \<le> r) = (0 < r \<and> 1024 \<le> binade r)" for r :: rat
  proof (cases "0 < r")
    case True
    then show ?thesis by (simp only: overflow_iff) simp
  next
    case False
    have "(0::rat) < 2 ^ 1024" by (rule zero_less_power) simp
    with False show ?thesis by linarith
  qed
  then show ?thesis by (simp only: toDouble_def Let_def)
qed

lemma toDouble_pos:
  "0 < x \<Longrightarrow> toDouble x = (if 2 ^ 1024 \<le> roundPos x then PosInf else Num (roundPos x))"
  by (simp add: toDouble_def)

lemma toDouble_neg:
  "x < 0 \<Longrightarrow> toDouble x = (if 2 ^ 1024 \<le> roundPos (- x) then NegInf else Num (- roundPos (- x)))"
  by (simp add: toDouble_def)

lemma toDouble_Num_cases:
  assumes "toDouble z = Num t"
  shows "t = 0 \<or> (0 < t \<and> roundPos t = t \<and> \<not> 2 ^ 1024 \<le> t) \<or>
         (t < 0 \<and> roundPos (- t) = - t \<and> \<not> 2 ^ 1024 \<le> - t)"
proof (cases "z = 0")
  case True
  with assms show ?thesis by (simp add: toDouble_def)
next
  case False
  show ?thesis
  proof (cases "0 < z")
    case True
    with assms have t: "t = roundPos z" and b: "\<not> 2 ^ 1024 \<le> roundPos z"
      by (auto simp: toDouble_pos split: if_splits)
    from roundPos_nonneg [OF True] have "t = 0 \<or> 0 < roundPos z" unfolding t by linarith
    then show ?thesis
    proof
      assume "t = 0" then show ?thesis by simp
    next
      assume p: "0 < roundPos z"
      from roundPos_idem [OF True p] p b show ?thesis unfolding t by simp
    qed
  next
    case f: False
    with False have n: "z < 0" by simp
    then have z': "0 < - z" by simp
    from assms n have t: "t = - roundPos (- z)" and b: "\<not> 2 ^ 1024 \<le> roundPos (- z)"
      by (auto simp: toDouble_neg split: if_splits)
    from roundPos_nonneg [OF z'] have "t = 0 \<or> 0 < roundPos (- z)" unfolding t by linarith
    then show ?thesis
    proof
      assume "t = 0" then show ?thesis by simp
    next
      assume p: "0 < roundPos (- z)"
      from roundPos_idem [OF z' p] p b show ?thesis unfolding t by simp
    qed
  qed
qed

lemma toDouble_idem: "toDouble z = Num t \<Longrightarrow> toDouble t = Num t"
  using toDouble_Num_cases [of z t] by (auto simp: toDouble_def)

lemma toDouble_le:
  assumes out: "toDouble z = Num t" and le: "x \<le> t"
  shows "toDouble x = NegInf \<or> (\<exists>r. toDouble x = Num r \<and> r \<le> t)"
proof -
  note c = toDouble_Num_cases [OF out]
  show ?thesis
  proof (cases "x = 0")
    case True
    with le show ?thesis by (simp add: toDouble_def)
  next
    case False
    show ?thesis
    proof (cases "0 < x")
      case True
      with le have tp: "0 < t" by simp
      with c have rt: "roundPos t = t" and b: "\<not> 2 ^ 1024 \<le> t" by auto
      from roundPos_mono [OF True le] rt have rx: "roundPos x \<le> t" by simp
      with b have "\<not> 2 ^ 1024 \<le> roundPos x" by linarith
      with True rx show ?thesis by (simp add: toDouble_pos)
    next
      case f: False
      with False have n: "x < 0" by simp
      then have x': "0 < - x" by simp
      have "- roundPos (- x) \<le> t"
      proof (cases "0 \<le> t")
        case True
        with roundPos_nonneg [OF x'] show ?thesis by linarith
      next
        case False
        then have tn: "t < 0" by simp
        with c have rt: "roundPos (- t) = - t" by auto
        from tn le have "0 < - t" "- t \<le> - x" by simp_all
        from roundPos_mono [OF this] rt show ?thesis by linarith
      qed
      with n show ?thesis by (simp add: toDouble_neg)
    qed
  qed
qed

lemma binade_ge0: "1 \<le> x \<Longrightarrow> 0 \<le> binade x"
proof -
  assume "1 \<le> x"
  then have "0 < \<lfloor>x\<rfloor>" by simp
  then have "1 \<le> bitlen \<lfloor>x\<rfloor>"
    using bitlen_nonneg [of "\<lfloor>x\<rfloor>"] bitlen_eq_zero_iff [of "\<lfloor>x\<rfloor>"] by linarith
  with \<open>1 \<le> x\<close> show ?thesis by (simp add: binade_def)
qed

lemma roundPos_int_exact:
  assumes k: "0 < k" and le: "k \<le> 2 ^ 53"
  shows "roundPos (of_int k) = of_int k"
proof -
  let ?x = "of_int k :: rat"
  from k have x1: "1 \<le> ?x" by simp
  then have x0: "0 < ?x" by linarith
  have b0: "0 \<le> binade ?x" by (rule binade_ge0 [OF x1])
  have "2 powi binade ?x \<le> ?x" by (rule binade_bounds(1) [OF x0])
  also have "?x \<le> of_int (2 ^ 53)" using le by (simp only: of_int_le_iff)
  also have "(of_int (2 ^ 53) :: rat) = 2 powi 53" by simp
  finally have b53: "binade ?x \<le> 53" by (rule pow2_le_exp)
  from b0 have q: "ulpExponent ?x = binade ?x - 52" by (simp add: ulpExponent_def)
  show ?thesis
  proof (cases "binade ?x = 53")
    case True
    have "(2::rat) powi 53 \<le> ?x" using binade_bounds(1) [OF x0] by (simp only: True)
    moreover have "(2::rat) powi 53 = of_int (2 ^ 53)" by simp
    ultimately have "(of_int (2 ^ 53) :: rat) \<le> of_int k" by (simp only:)
    then have "2 ^ 53 \<le> k" by (simp only: of_int_le_iff)
    with le have kv: "k = 2 ^ 53" by simp
    have "ulpExponent ?x = 1" by (simp add: q True)
    then have "?x / 2 powi ulpExponent ?x = of_int (2 ^ 52)" by (simp add: kv)
    then show ?thesis by (rule roundPos_exact)
  next
    case False
    with b53 have "binade ?x \<le> 52" by simp
    then have d: "0 \<le> - ulpExponent ?x" by (simp add: q)
    have "?x / 2 powi ulpExponent ?x = ?x * 2 powi (- ulpExponent ?x)"
      by (simp add: power_int_minus field_simps)
    also have "\<dots> = of_int (k * 2 ^ nat (- ulpExponent ?x))"
      using d by (simp only: pow2_of_int of_int_mult)
    finally show ?thesis by (rule roundPos_exact)
  qed
qed

lemma toDouble_int_exact:
  assumes "\<bar>k\<bar> \<le> 2 ^ 53"
  shows "toDouble (of_int k) = Num (of_int k)"
proof -
  have big: "\<not> (2::rat) ^ 1024 \<le> of_int j" if "j \<le> 2 ^ 53" for j :: int
  proof -
    from that have "(of_int j :: rat) \<le> of_int (2 ^ 53)" by (simp only: of_int_le_iff)
    moreover have "(of_int (2 ^ 53) :: rat) < 2 ^ 1024" by simp
    ultimately show ?thesis by linarith
  qed
  consider "k = 0" | "0 < k" | "k < 0" by linarith
  then show ?thesis
  proof cases
    case 1
    then show ?thesis by (simp add: toDouble_def)
  next
    case 2
    with assms have le: "k \<le> 2 ^ 53" by simp
    from 2 have "0 < (of_int k :: rat)" by simp
    with roundPos_int_exact [OF 2 le] big [OF le] show ?thesis by (simp add: toDouble_pos)
  next
    case 3
    with assms have le: "- k \<le> 2 ^ 53" by simp
    from 3 have p: "0 < - k" by simp
    from 3 have "(of_int k :: rat) < 0" by simp
    with roundPos_int_exact [OF p le] big [OF le] show ?thesis by (simp add: toDouble_neg)
  qed
qed

lemma toDouble_ge:
  assumes out: "toDouble z = Num t" and le: "t \<le> x"
  shows "toDouble x = PosInf \<or> (\<exists>r. toDouble x = Num r \<and> t \<le> r)"
proof -
  note c = toDouble_Num_cases [OF out]
  show ?thesis
  proof (cases "x = 0")
    case True
    with le show ?thesis by (simp add: toDouble_def)
  next
    case False
    show ?thesis
    proof (cases "x < 0")
      case True
      with le have tn: "t < 0" by simp
      with c have rt: "roundPos (- t) = - t" and b: "\<not> 2 ^ 1024 \<le> - t" by auto
      from True have x': "0 < - x" by simp
      from le have "- x \<le> - t" by simp
      from roundPos_mono [OF x' this] rt have rx: "roundPos (- x) \<le> - t" by simp
      with b have "\<not> 2 ^ 1024 \<le> roundPos (- x)" by linarith
      with True rx show ?thesis by (simp add: toDouble_neg)
    next
      case f: False
      with False have p: "0 < x" by simp
      have "t \<le> roundPos x"
      proof (cases "t \<le> 0")
        case True
        with roundPos_nonneg [OF p] show ?thesis by linarith
      next
        case False
        then have tp: "0 < t" by simp
        with c have rt: "roundPos t = t" by auto
        from roundPos_mono [OF tp le] rt show ?thesis by linarith
      qed
      with p show ?thesis by (simp add: toDouble_pos)
    qed
  qed
qed

lemma js_times_Num: "js_times a (Num b) = Num t \<Longrightarrow> \<exists>z. toDouble z = Num t"
  by (cases a) (auto split: if_splits)

lemma js_gt_within:
  assumes out: "\<And>t. T = Num t \<Longrightarrow> \<exists>z. toDouble z = Num t" and le: "withinThreshold x T"
  shows "\<not> js_gt (toDouble x) T"
proof (cases T)
  case (Num t)
  with le have l: "x \<le> t" by simp
  from out [OF Num] obtain z where "toDouble z = Num t" by blast
  from toDouble_le [OF this l] show ?thesis unfolding Num by auto
next
  case PosInf
  then show ?thesis by (cases "toDouble x") simp_all
next
  case NegInf
  with le show ?thesis by simp
next
  case NaN
  with le show ?thesis by simp
qed

lemma js_gt_int_exact:
  assumes K: "\<bar>K\<bar> < 2 ^ 53"
  shows "js_gt (toDouble (of_int d)) (Num (of_int K)) = (K < d)"
proof -
  have p53: "toDouble (of_int (2 ^ 53)) = Num (of_int (2 ^ 53))"
    by (rule toDouble_int_exact) simp
  have n53: "toDouble (of_int (- (2 ^ 53))) = Num (of_int (- (2 ^ 53)))"
    by (rule toDouble_int_exact) simp
  consider "\<bar>d\<bar> \<le> 2 ^ 53" | "2 ^ 53 < d" | "d < - (2 ^ 53)" by linarith
  then show ?thesis
  proof cases
    case 1
    then show ?thesis by (simp add: toDouble_int_exact)
  next
    case 2
    then have "(of_int (2 ^ 53) :: rat) \<le> of_int d" by (simp only: of_int_le_iff)
    from toDouble_ge [OF p53 this]
    have "js_gt (toDouble (of_int d)) (Num (of_int K))"
    proof
      assume "toDouble (of_int d) = PosInf"
      then show ?thesis by simp
    next
      assume "\<exists>r. toDouble (of_int d) = Num r \<and> (of_int (2 ^ 53) :: rat) \<le> r"
      then obtain r where r: "toDouble (of_int d) = Num r" "(of_int (2 ^ 53) :: rat) \<le> r" by blast
      from K have "K < 2 ^ 53" by linarith
      then have "(of_int K :: rat) < of_int (2 ^ 53)" by (simp only: of_int_less_iff)
      with r show ?thesis by simp
    qed
    moreover from 2 K have "K < d" by linarith
    ultimately show ?thesis by simp
  next
    case 3
    then have "(of_int d :: rat) \<le> of_int (- (2 ^ 53))" by (simp only: of_int_le_iff)
    from toDouble_le [OF n53 this]
    have "\<not> js_gt (toDouble (of_int d)) (Num (of_int K))"
    proof
      assume "toDouble (of_int d) = NegInf"
      then show ?thesis by simp
    next
      assume "\<exists>r. toDouble (of_int d) = Num r \<and> r \<le> (of_int (- (2 ^ 53)) :: rat)"
      then obtain r where r: "toDouble (of_int d) = Num r" "r \<le> (of_int (- (2 ^ 53)) :: rat)" by blast
      from K have "- (2 ^ 53) < K" by linarith
      then have "(of_int (- (2 ^ 53)) :: rat) < of_int K" by (simp only: of_int_less_iff)
      with r show ?thesis by simp
    qed
    moreover from 3 K have "\<not> K < d" by linarith
    ultimately show ?thesis by simp
  qed
qed

subsection \<open>The inactivity policy\<close>

lemma msUntilInactivity_rounded:
  "msUntilInactivity this = Num t \<Longrightarrow> \<exists>z. toDouble z = Num t"
  unfolding msUntilInactivity_def by (rule js_times_Num)

lemma msUntilInactivity_whole:
  assumes m: "minutesUntilInactivity this = Num m" and k: "m * 1000 = of_int k"
      and small: "\<bar>k * 60\<bar> < 2 ^ 53"
  shows "msUntilInactivity this = Num (of_int (k * 60))"
proof -
  from small have k53: "\<bar>k\<bar> \<le> 2 ^ 53" and k60: "\<bar>k * 60\<bar> \<le> 2 ^ 53" by linarith+
  have "js_times (Num m) (Num 1000) = Num (of_int k)"
    using toDouble_int_exact [OF k53] by (simp add: k)
  moreover have "js_times (Num (of_int k)) (Num 60) = Num (of_int (k * 60))"
    using toDouble_int_exact [OF k60] by simp
  ultimately show ?thesis by (simp add: msUntilInactivity_def m)
qed

lemma hasInactivity_NaN:
  "newDate (js_or (updated e) (created e)) = NaN \<Longrightarrow> hasInactivity this e now = False"
  by (cases "timeClip now") (simp_all add: hasInactivity_def)

lemma hasInactivity_stamp:
  "newDate (js_or (updated e) (created e)) = timeClip u \<Longrightarrow>
   hasInactivity this e now = lapsedSince this u now"
  by (simp add: hasInactivity_def lapsedSince_def)

lemma within_not_lapsed:
  assumes "withinThreshold (of_int (now - u)) (msUntilInactivity this)"
  shows "\<not> lapsedSince this u now"
proof (cases "\<bar>now\<bar> \<le> 8640000000000000 \<and> \<bar>u\<bar> \<le> 8640000000000000")
  case True
  then have "js_minus (timeClip now) (timeClip u) = toDouble (of_int (now - u))"
    by (simp add: timeClip_def)
  with js_gt_within [OF msUntilInactivity_rounded assms] show ?thesis
    by (simp add: lapsedSince_def)
next
  case False
  then have "js_minus (timeClip now) (timeClip u) = NaN"
    by (auto simp: timeClip_def)
  then show ?thesis by (simp add: lapsedSince_def)
qed

lemma lapsedSince_whole:
  assumes now: "\<bar>now\<bar> \<le> 8640000000000000" and u: "\<bar>u\<bar> \<le> 8640000000000000"
      and m: "minutesUntilInactivity this = Num m" and k: "m * 1000 = of_int k"
      and small: "\<bar>k * 60\<bar> < 2 ^ 53"
  shows "lapsedSince this u now = (m * 60000 < of_int (now - u))"
proof -
  from now u have "js_minus (timeClip now) (timeClip u) = toDouble (of_int (now - u))"
    by (simp add: timeClip_def)
  with msUntilInactivity_whole [OF m k small] js_gt_int_exact [OF small, of "now - u"]
  have "lapsedSince this u now = (k * 60 < now - u)" by (simp add: lapsedSince_def)
  also have "\<dots> = ((of_int (k * 60) :: rat) < of_int (now - u))" by (simp only: of_int_less_iff)
  also have "(of_int (k * 60) :: rat) = m * 60000" using k by simp
  finally show ?thesis .
qed

text \<open>
  C5, as the code has it. The code multiplies, subtracts and compares doubles. Let the
  current time and the timestamp the policy reads be valid dates, and let the threshold be
  a whole number of milliseconds below \<open>2 ^ 53\<close> in magnitude (the minutes need
  not be whole). Then both multiplications are exact, the threshold is
  \<open>minutesUntilInactivity\<close> times 60000 milliseconds, and \<open>hasInactivity\<close> is true
  exactly when the current time minus the last activity is strictly above it, where the
  last activity is the \<open>updated\<close> timestamp and, when the event has none, the
  \<open>created\<close> timestamp.
\<close>

theorem hasInactivity_strict_threshold:
  assumes now: "\<bar>now\<bar> \<le> 8640000000000000"
      and minutes: "minutesUntilInactivity this = Num m"
      and whole: "m * 1000 = of_int k"
      and small: "\<bar>k * 60\<bar> < 2 ^ 53"
  shows "msUntilInactivity this = Num (m * 60000) \<and>
         (updated e = Some (DateTime u) \<and> \<bar>u\<bar> \<le> 8640000000000000 \<longrightarrow>
            hasInactivity this e now = (of_int (now - u) > m * 60000)) \<and>
         (\<not> truthy (updated e) \<and> created e = Some (DateTime c) \<and> \<bar>c\<bar> \<le> 8640000000000000 \<longrightarrow>
            hasInactivity this e now = (of_int (now - c) > m * 60000))"
proof (intro conjI impI)
  have "(of_int (k * 60) :: rat) = m * 60000" using whole by simp
  with msUntilInactivity_whole [OF minutes whole small]
  show "msUntilInactivity this = Num (m * 60000)" by simp
next
  assume a: "updated e = Some (DateTime u) \<and> \<bar>u\<bar> \<le> 8640000000000000"
  then have "newDate (js_or (updated e) (created e)) = timeClip u" by (simp add: js_or_def)
  from hasInactivity_stamp [OF this] lapsedSince_whole [OF now _ minutes whole small, of u] a
  show "hasInactivity this e now = (of_int (now - u) > m * 60000)" by simp
next
  assume a: "\<not> truthy (updated e) \<and> created e = Some (DateTime c) \<and> \<bar>c\<bar> \<le> 8640000000000000"
  then have "newDate (js_or (updated e) (created e)) = timeClip c" by (simp add: js_or_def)
  from hasInactivity_stamp [OF this] lapsedSince_whole [OF now _ minutes whole small, of c] a
  show "hasInactivity this e now = (of_int (now - c) > m * 60000)" by simp
qed

theorem hasInactivity_strict_threshold_witness:
  "msUntilInactivity exLogger = Num 600000 \<and>
   hasInactivity exLogger (exEvent 1 0 5000 ''false'') 605001 \<and>
   \<not> hasInactivity exLogger (exEvent 1 0 5000 ''false'') 605000 \<and>
   hasInactivity exLogger ((exEvent 1 0 5000 ''false'')\<lparr>updated := None\<rparr>) 600001 \<and>
   \<not> hasInactivity exLogger ((exEvent 1 0 5000 ''false'')\<lparr>updated := None\<rparr>) 600000 \<and>
   msUntilInactivity (exLogger\<lparr>minutesUntilInactivity := Num (1 / 2)\<rparr>) = Num 30000 \<and>
   hasInactivity (exLogger\<lparr>minutesUntilInactivity := Num (1 / 2)\<rparr>)
     (exEvent 1 0 5000 ''false'') 35001 \<and>
   \<not> hasInactivity (exLogger\<lparr>minutesUntilInactivity := Num (1 / 2)\<rparr>)
     (exEvent 1 0 5000 ''false'') 35000"
proof -
  let ?e = "exEvent 1 0 5000 ''false''"
  let ?half = "exLogger\<lparr>minutesUntilInactivity := Num (1 / 2)\<rparr>"
  have m: "minutesUntilInactivity exLogger = Num 10" by (simp add: exLogger_def)
  have k: "(10::rat) * 1000 = of_int 10000" by simp
  have small: "\<bar>10000 * 60 :: int\<bar> < 2 ^ 53" by simp
  have mh: "minutesUntilInactivity ?half = Num (1 / 2)" by simp
  have kh: "(1 / 2 :: rat) * 1000 = of_int 500" by simp
  have smallh: "\<bar>500 * 60 :: int\<bar> < 2 ^ 53" by simp
  have u: "updated ?e = Some (DateTime 5000) \<and> \<bar>5000 :: int\<bar> \<le> 8640000000000000"
    by (simp add: exEvent_def)
  have c: "\<not> truthy (updated (?e\<lparr>updated := None\<rparr>)) \<and>
           created (?e\<lparr>updated := None\<rparr>) = Some (DateTime 0) \<and> \<bar>0 :: int\<bar> \<le> 8640000000000000"
    by (simp add: exEvent_def)
  have n: "\<bar>605001 :: int\<bar> \<le> 8640000000000000" "\<bar>605000 :: int\<bar> \<le> 8640000000000000"
    "\<bar>600001 :: int\<bar> \<le> 8640000000000000" "\<bar>600000 :: int\<bar> \<le> 8640000000000000"
    "\<bar>35001 :: int\<bar> \<le> 8640000000000000" "\<bar>35000 :: int\<bar> \<le> 8640000000000000"
    by simp_all
  from hasInactivity_strict_threshold [OF n(1) m k small, of ?e 5000 0] u
  have a1: "msUntilInactivity exLogger = Num 600000" "hasInactivity exLogger ?e 605001" by simp_all
  from hasInactivity_strict_threshold [OF n(2) m k small, of ?e 5000 0] u
  have a2: "\<not> hasInactivity exLogger ?e 605000" by simp
  from hasInactivity_strict_threshold [OF n(3) m k small, of "?e\<lparr>updated := None\<rparr>" 0 0] c
  have a3: "hasInactivity exLogger (?e\<lparr>updated := None\<rparr>) 600001" by simp
  from hasInactivity_strict_threshold [OF n(4) m k small, of "?e\<lparr>updated := None\<rparr>" 0 0] c
  have a4: "\<not> hasInactivity exLogger (?e\<lparr>updated := None\<rparr>) 600000" by simp
  from hasInactivity_strict_threshold [OF n(5) mh kh smallh, of ?e 5000 0] u
  have a5: "msUntilInactivity ?half = Num 30000" "hasInactivity ?half ?e 35001" by simp_all
  from hasInactivity_strict_threshold [OF n(6) mh kh smallh, of ?e 5000 0] u
  have a6: "\<not> hasInactivity ?half ?e 35000" by simp
  from a1 a2 a3 a4 a5 a6 show ?thesis by simp
qed

text \<open>
  The claim C5 as written fails where the subtraction rounds. Take a threshold of
  160000000000 minutes, an event written at -1600000000000001 and the current time
  8000000000000000, both valid dates. The elapsed time is 9600000000000001 milliseconds,
  one above the threshold of 9600000000000000, but between \<open>2 ^ 53\<close> and
  \<open>2 ^ 54\<close> only the even integers are doubles: the difference rounds to the
  threshold and \<open>hasInactivity\<close> is false.
\<close>

theorem hasInactivity_rounding_counterexample:
  "msUntilInactivity (exLogger\<lparr>minutesUntilInactivity := Num 160000000000\<rparr>)
     = Num (160000000000 * 60000) \<and>
   updated (exEvent 1 0 (- 1600000000000001) ''false'') = Some (DateTime (- 1600000000000001)) \<and>
   (of_int (8000000000000000 - (- 1600000000000001)) :: rat) > 160000000000 * 60000 \<and>
   \<not> hasInactivity (exLogger\<lparr>minutesUntilInactivity := Num 160000000000\<rparr>)
       (exEvent 1 0 (- 1600000000000001) ''false'') 8000000000000000"
  by code_simp

text \<open>
  C4, as the code has it. When the timestamp the policy reads (\<open>updated\<close>, or
  \<open>created\<close> when \<open>updated\<close> is missing or empty) is no date, \<open>hasInactivity\<close> raises
  nothing: the invalid date becomes \<open>NaN\<close>, the comparison with \<open>NaN\<close> is false, and
  the answer is "not lapsed" for every current time and every threshold.
\<close>

theorem malformed_timestamp_not_lapsed:
  "newDate (js_or (updated e) (created e)) = NaN \<Longrightarrow> hasInactivity this e now = False"
  by (rule hasInactivity_NaN)

theorem malformed_timestamp_not_lapsed_witness:
  "newDate (js_or (updated garbledEvent) (created garbledEvent)) = NaN \<and>
   hasInactivity exLogger garbledEvent 99999999999 = False"
proof -
  have h: "newDate (js_or (updated garbledEvent) (created garbledEvent)) = NaN"
    by (simp add: garbledEvent_def exEvent_def js_or_def)
  from h malformed_timestamp_not_lapsed [OF h, of exLogger 99999999999] show ?thesis
    by simp
qed

text \<open>
  The claim C4 as written fails: on an open event whose \<open>updated\<close> and \<open>created\<close> are
  no dates the policy returns the boolean \<open>False\<close>, however long ago the event was
  written.
\<close>

theorem malformed_timestamp_counterexample:
  "hasInactivity exLogger garbledEvent 99999999999 = False"
  by code_simp

subsection \<open>The resolver's scan\<close>

lemma incomplete_iff:
  "incomplete e \<longleftrightarrow>
     (\<exists>ext priv. extendedProperties e = Some ext \<and> private_props ext = Some priv \<and>
        completed priv = Some ''false'')"
  by (auto simp: incomplete_def readCompleted_def split: option.splits)

lemma listCallback_Inr:
  "listCallback (Inr events) = Inr e \<Longrightarrow> find incomplete (rev events) = Some e"
  by (auto simp: listCallback_def split: if_splits option.splits)

lemma listCallback_found:
  "find incomplete (rev events) = Some e \<Longrightarrow> listCallback (Inr events) = Inr e"
  by (auto simp: listCallback_def)

lemma listCallback_none:
  "\<forall>e\<in>set events. \<not> incomplete e \<Longrightarrow>
   listCallback (Inr events) =
     Inl (Error (if events = [] then ''Found no events in the past 7 days.''
                 else ''No latest incomplete event found in the past 7 days.''))"
proof -
  assume "\<forall>e\<in>set events. \<not> incomplete e"
  then have "find incomplete (rev events) = None" by (simp add: find_None_iff)
  then show ?thesis by (simp add: listCallback_def)
qed

lemma listCallback_some:
  assumes "x \<in> set events" and "incomplete x"
  shows "\<exists>e. listCallback (Inr events) = Inr e"
proof -
  from assms have "find incomplete (rev events) \<noteq> None"
    by (auto simp: find_None_iff)
  then obtain e where "find incomplete (rev events) = Some e" by auto
  then show ?thesis by (auto dest: listCallback_found)
qed



text \<open>
  C9. The open-marker test is total: it is true exactly for an event that has extended
  properties with a private part whose \<open>completed\<close> is the string \<open>false\<close>. The scan
  never rejects with the \<open>TypeError\<close> of a missing part, and an event it resolves with
  is an event of the list that passes the test.
\<close>

theorem open_marker_test_total:
  "(incomplete e \<longleftrightarrow>
      (\<exists>ext priv. extendedProperties e = Some ext \<and> private_props ext = Some priv \<and>
         completed priv = Some ''false'')) \<and>
   listCallback (Inr events) \<noteq> Inl TypeError \<and>
   (\<forall>e'. listCallback (Inr events) = Inr e' \<longrightarrow> e' \<in> set events \<and> incomplete e')"
proof (intro conjI allI impI)
  show "incomplete e \<longleftrightarrow>
      (\<exists>ext priv. extendedProperties e = Some ext \<and> private_props ext = Some priv \<and>
         completed priv = Some ''false'')"
    by (rule incomplete_iff)
  show "listCallback (Inr events) \<noteq> Inl TypeError"
    by (simp add: listCallback_def split: option.splits)
next
  fix e' assume "listCallback (Inr events) = Inr e'"
  then have "find incomplete (rev events) = Some e'" by (rule listCallback_Inr)
  from find_Some_set [OF this] show "e' \<in> set events" and "incomplete e'" by simp_all
qed

theorem open_marker_test_total_witness:
  "\<not> incomplete bareEvent \<and> \<not> incomplete publicOnlyEvent \<and>
   \<not> incomplete (exEvent 3 300 300 ''true'') \<and> \<not> incomplete (exEvent 4 400 400 ''False'') \<and>
   incomplete (exEvent 2 200 200 ''false'') \<and>
   listCallback (Inr [exEvent 2 200 200 ''false'', bareEvent, publicOnlyEvent,
                      exEvent 3 300 300 ''true'', exEvent 4 400 400 ''False''])
     = Inr (exEvent 2 200 200 ''false'')"
proof -
  let ?evs = "[exEvent 2 200 200 ''false'', bareEvent, publicOnlyEvent,
               exEvent 3 300 300 ''true'', exEvent 4 400 400 ''False'']"
  have r: "listCallback (Inr ?evs) = Inr (exEvent 2 200 200 ''false'')"
    by (simp add: listCallback_def exEvent_def bareEvent_def publicOnlyEvent_def
          incomplete_def readCompleted_def marker_def)
  have n: "\<not> incomplete bareEvent" "\<not> incomplete publicOnlyEvent"
      "\<not> incomplete (exEvent 3 300 300 ''true'')" "\<not> incomplete (exEvent 4 400 400 ''False'')"
    by (simp_all add: exEvent_def bareEvent_def publicOnlyEvent_def
          incomplete_def readCompleted_def marker_def)
  from open_marker_test_total [of "exEvent 2 200 200 ''false''" ?evs] r n show ?thesis
    by (simp add: exEvent_def marker_def)
qed

subsection \<open>The description log\<close>

lemma pad2:
  "n < 100 \<Longrightarrow> slice_last2 (CHR ''0'' # toDecimal n) = [digit (n div 10), digit (n mod 10)]"
proof (cases "n < 10")
  case True
  then have "toDecimal n = [digit n]" by (subst toDecimal.simps) simp
  with True show ?thesis by (simp add: slice_last2_def digit_def)
next
  case False
  assume "n < 100"
  then have "n div 10 < 10" by simp
  then have "toDecimal (n div 10) = [digit (n div 10)]" by (subst toDecimal.simps) simp
  with False have "toDecimal n = [digit (n div 10), digit (n mod 10)]"
    by (subst toDecimal.simps) simp
  then show ?thesis by (simp add: slice_last2_def)
qed

lemma getHours_lt: "getHours env t < 24"
  by (simp add: getHours_def nat_less_iff)

lemma getMinutes_lt: "getMinutes env t < 60"
  by (simp add: getMinutes_def nat_less_iff)

lemma digit_not_newline: "n < 10 \<Longrightarrow> digit n \<noteq> newline"
proof -
  assume "n < 10"
  then have "n \<in> {0,1,2,3,4,5,6,7,8,9}" by auto
  then show ?thesis by (auto simp: digit_def newline_def)
qed

lemma splitLines_nonempty: "splitLines s \<noteq> []"
  by (induction s) (auto split: list.splits)

lemma splitLines_single: "newline \<notin> set s \<Longrightarrow> splitLines s = [s]"
  by (induction s) auto

lemma splitLines_append: "splitLines (a @ newline # b) = splitLines a @ splitLines b"
  by (induction a) (auto split: list.splits simp: splitLines_nonempty)

lemma stamp_eq:
  "slice_last2 (''0'' @ toDecimal (getHours env t)) @ '':'' @
   slice_last2 (''0'' @ toDecimal (getMinutes env t)) = timeLabel env t"
proof -
  have "getHours env t < 100" "getMinutes env t < 100"
    using getHours_lt [of env t] getMinutes_lt [of env t] by simp_all
  then show ?thesis by (simp add: pad2 timeLabel_def)
qed

lemma addToDescription_eq:
  "addToDescription env t m d =
     (case d of None \<Rightarrow> [] | Some p \<Rightarrow> if p = [] then [] else p @ [newline]) @ logLine env t m"
  using stamp_eq [of env t]
  by (simp add: addToDescription_def logLine_def Let_def split: option.splits)

lemma logLine_no_newline:
  assumes m: "newline \<notin> set m"
  shows "newline \<notin> set (logLine env t m)"
proof -
  have "getHours env t div 10 < 10" "getHours env t mod 10 < 10"
       "getMinutes env t div 10 < 10" "getMinutes env t mod 10 < 10"
    using getHours_lt [of env t] getMinutes_lt [of env t] by simp_all
  then have "digit (getHours env t div 10) \<noteq> newline" "digit (getHours env t mod 10) \<noteq> newline"
       "digit (getMinutes env t div 10) \<noteq> newline" "digit (getMinutes env t mod 10) \<noteq> newline"
    by (simp_all add: digit_not_newline)
  then have "newline \<notin> set (timeLabel env t)"
    by (simp add: timeLabel_def newline_def)
  with m show ?thesis by (simp add: logLine_def en_dash_def newline_def)
qed

text \<open>
  C8. \<open>addToDescription\<close> returns the prior description unchanged, followed by one
  newline when it is not empty, followed by the line \<open>HH:MM\<close>, space, dash, space,
  message, with hours and minutes padded to two digits. When the message has no newline,
  the lines of the result are the prior lines, in their order, and that one line after
  them, and the message read back from the last line is the message given.
\<close>

theorem addToDescription_appends_line:
  "addToDescription env t m d =
     (case d of None \<Rightarrow> [] | Some p \<Rightarrow> if p = [] then [] else p @ [newline]) @ logLine env t m \<and>
   (newline \<notin> set m \<longrightarrow>
      splitLines (addToDescription env t m d) =
        (case d of None \<Rightarrow> [] | Some p \<Rightarrow> if p = [] then [] else splitLines p) @
        [logLine env t m] \<and>
      lastLineMessage (addToDescription env t m d) = m)"
proof (intro conjI impI)
  show "addToDescription env t m d =
     (case d of None \<Rightarrow> [] | Some p \<Rightarrow> if p = [] then [] else p @ [newline]) @ logLine env t m"
    by (rule addToDescription_eq)
next
  assume m: "newline \<notin> set m"
  have single: "splitLines (logLine env t m) = [logLine env t m]"
    using logLine_no_newline [OF m] by (rule splitLines_single)
  show split: "splitLines (addToDescription env t m d) =
        (case d of None \<Rightarrow> [] | Some p \<Rightarrow> if p = [] then [] else splitLines p) @
        [logLine env t m]"
    using single splitLines_append [of _ "logLine env t m"]
    by (simp add: addToDescription_eq split: option.splits)
  have "drop 10 (logLine env t m) = m"
    by (simp add: logLine_def timeLabel_def en_dash_def)
  with split show "lastLineMessage (addToDescription env t m d) = m"
    by (simp add: lastLineMessage_def)
qed

theorem addToDescription_appends_line_witness:
  "newline \<notin> set ''edit A'' \<and>
   addToDescription exEnv 29100000 ''edit A'' (Some ''09:00 - entry'') =
     ''09:00 - entry'' @ [newline] @ ''09:05 '' @ en_dash @ '' edit A'' \<and>
   lastLineMessage (addToDescription exEnv 29100000 ''edit A'' (Some ''09:00 - entry'')) = ''edit A''"
proof -
  have n: "newline \<notin> set ''edit A''" by (simp add: newline_def)
  have l: "logLine exEnv 29100000 ''edit A'' = ''09:05 '' @ en_dash @ '' edit A''"
    by (simp add: logLine_def timeLabel_def getHours_def getMinutes_def exEnv_def digit_def)
  note t = addToDescription_appends_line [of exEnv 29100000 "''edit A''" "Some ''09:00 - entry''"]
  from t n have b:
    "lastLineMessage (addToDescription exEnv 29100000 ''edit A'' (Some ''09:00 - entry'')) = ''edit A''"
    by blast
  from t have "addToDescription exEnv 29100000 ''edit A'' (Some ''09:00 - entry'') =
      (case Some ''09:00 - entry'' of None \<Rightarrow> [] | Some p \<Rightarrow> if p = [] then [] else p @ [newline]) @
      logLine exEnv 29100000 ''edit A''"
    by blast
  with l have a: "addToDescription exEnv 29100000 ''edit A'' (Some ''09:00 - entry'') =
      ''09:00 - entry'' @ [newline] @ ''09:05 '' @ en_dash @ '' edit A''"
    by simp
  from n a b show ?thesis by blast
qed

subsection \<open>Remote calls\<close>

lemma patched_frame:
  "event_id (patched s r e) = event_id e" "start (patched s r e) = start e"
  "created (patched s r e) = created e"
  "p_end r = None \<Longrightarrow> end_time (patched s r e) = end_time e"
  by (simp_all add: patched_def)

lemma events_patch_start:
  "map start (items (snd (events_patch env i r w))) = map start (items w)"
  by (auto simp: events_patch_def Let_def patched_frame comp_def split: option.splits)

lemma events_patch_end:
  "p_end r = None \<Longrightarrow>
   map end_time (items (snd (events_patch env i r w))) = map end_time (items w)"
  by (auto simp: events_patch_def Let_def patched_frame comp_def split: option.splits)

lemma inactivityPatch_end: "p_end (inactivityPatch env this e t) = None"
  by (simp add: inactivityPatch_def Let_def)

lemma logEndDueToInactivity_world:
  "snd (logEndDueToInactivity env this e t w) =
     (case calendarConnection this of Some err \<Rightarrow> w
      | None \<Rightarrow> snd (events_patch env (event_id e) (inactivityPatch env this e t) w))"
  by (simp add: logEndDueToInactivity_def split: option.splits prod.splits sum.splits)

lemma events_list_ok:
  "fault env (ticks w) = None \<Longrightarrow>
   events_list env lo hi w =
     (Inr (sort_key startTime (filter (startsWithin lo hi) (items w))),
      w\<lparr>ticks := Suc (ticks w)\<rparr>)"
  by (simp add: events_list_def Let_def)

lemma resolver_ok:
  "calendarConnection this = None \<Longrightarrow> fault env (ticks w) = None \<Longrightarrow>
   getLatestIncompleteLogEvent env this now tz w =
     (listCallback (Inr (sort_key startTime (filter (inLookback now) (items w)))),
      w\<lparr>ticks := Suc (ticks w)\<rparr>)"
  by (simp add: getLatestIncompleteLogEvent_def events_list_ok)

lemma resolver_none:
  assumes "calendarConnection this = None" and "fault env (ticks w) = None"
      and "\<forall>e\<in>set (items w). inLookback now e \<longrightarrow> \<not> incomplete e"
  shows "getLatestIncompleteLogEvent env this now tz w =
     (Inl (Error (if filter (inLookback now) (items w) = []
                  then ''Found no events in the past 7 days.''
                  else ''No latest incomplete event found in the past 7 days.'')),
      w\<lparr>ticks := Suc (ticks w)\<rparr>)"
proof -
  let ?evs = "sort_key startTime (filter (inLookback now) (items w))"
  have "\<forall>e\<in>set ?evs. \<not> incomplete e" using assms(3) by simp
  then have "listCallback (Inr ?evs) =
      Inl (Error (if ?evs = [] then ''Found no events in the past 7 days.''
                  else ''No latest incomplete event found in the past 7 days.''))"
    by (rule listCallback_none)
  moreover have "?evs = [] \<longleftrightarrow> filter (inLookback now) (items w) = []"
    by (metis length_sort length_0_conv)
  ultimately show ?thesis using resolver_ok [OF assms(1,2)] by simp
qed

text \<open>
  C10. The patch that closes a lapsed session carries a summary, a description and the
  marker \<open>true\<close>, and no end time; after \<open>logEndDueToInactivity\<close>, whatever the outcome
  of the call, every event of the calendar has the start and the end it had before.
\<close>

theorem inactivity_close_keeps_times:
  "p_end (inactivityPatch env this e t) = None \<and>
   p_summary (inactivityPatch env this e t) = getLogName this (activityConcluded (strings this)) \<and>
   p_extendedProperties (inactivityPatch env this e t) = marker ''true'' \<and>
   map start (items (snd (logEndDueToInactivity env this e t w))) = map start (items w) \<and>
   map end_time (items (snd (logEndDueToInactivity env this e t w))) = map end_time (items w)"
  by (simp add: logEndDueToInactivity_world events_patch_start events_patch_end
        inactivityPatch_end split: option.splits)
     (simp add: inactivityPatch_def Let_def)

theorem inactivity_close_keeps_times_witness:
  "map end_time (items (snd (logEndDueToInactivity exEnv exLogger
      (exEvent 1 0 0 ''false'') 960000 staleWorld))) = [\<lparr> dateTime = 1000, timeZone = ''UTC'' \<rparr>] \<and>
   map incomplete (items (snd (logEndDueToInactivity exEnv exLogger
      (exEvent 1 0 0 ''false'') 960000 staleWorld))) = [False]"
proof -
  have "map incomplete (items (snd (logEndDueToInactivity exEnv exLogger
      (exEvent 1 0 0 ''false'') 960000 staleWorld))) = [False]"
    by (simp add: logEndDueToInactivity_def events_patch_def exLogger_def exEnv_def
          staleWorld_def exEvent_def patched_def inactivityPatch_def marker_def
          incomplete_def readCompleted_def Let_def)
  with inactivity_close_keeps_times [of exEnv exLogger "exEvent 1 0 0 ''false''" 960000 staleWorld]
  show ?thesis by (simp add: staleWorld_def exEvent_def)
qed

text \<open>
  C7. When no event in the lookback window carries the open marker (also when the
  window has no event at all) and the list call itself succeeds, the resolver rejects
  with an \<open>Error\<close> made by the code, whose message is one of two fixed texts; it is
  no error of a remote call and no event. \<open>logActivity\<close> and \<open>logEnd\<close> reject with
  that same error and write nothing.
\<close>

theorem no_open_session_error:
  assumes conn: "calendarConnection this = None"
      and ok: "fault env (Suc (ticks w)) = None"
      and none: "\<forall>e\<in>set (items w). inLookback (clock env (ticks w)) e \<longrightarrow> \<not> incomplete e"
  shows "\<exists>msg. (msg = ''Found no events in the past 7 days.'' \<or>
               msg = ''No latest incomplete event found in the past 7 days.'') \<and>
           getLatestIncompleteLogEvent env this (clock env (ticks w)) tz
               (w\<lparr>ticks := Suc (ticks w)\<rparr>)
             = (Inl (Error msg), w\<lparr>ticks := Suc (Suc (ticks w))\<rparr>) \<and>
           logActivity (Suc depth) env this m w
             = Some (Inl (Error msg), w\<lparr>ticks := Suc (Suc (ticks w))\<rparr>) \<and>
           logEnd env this w = (Inl (Error msg), w\<lparr>ticks := Suc (Suc (ticks w))\<rparr>)"
proof -
  let ?w1 = "w\<lparr>ticks := Suc (ticks w)\<rparr>"
  let ?w2 = "w\<lparr>ticks := Suc (Suc (ticks w))\<rparr>"
  let ?now = "clock env (ticks w)"
  let ?msg = "if filter (inLookback ?now) (items w) = []
              then ''Found no events in the past 7 days.''
              else ''No latest incomplete event found in the past 7 days.''"
  have r: "getLatestIncompleteLogEvent env this ?now tz' ?w1 = (Inl (Error ?msg), ?w2)" for tz'
    using resolver_none [of this env ?w1 ?now tz'] conn ok none by simp
  have a: "logActivity (Suc depth) env this m w = Some (Inl (Error ?msg), ?w2)"
    using conn r by (simp add: getCurrentTime_def)
  have e: "logEnd env this w = (Inl (Error ?msg), ?w2)"
    using conn r by (simp add: logEnd_def getCurrentTime_def)
  show ?thesis
    by (rule exI [of _ ?msg]) (use r a e in auto)
qed

theorem no_open_session_error_witness:
  "logActivity (Suc 0) exEnv exLogger ''edit A'' closedWorld
     = Some (Inl (Error ''No latest incomplete event found in the past 7 days.''),
             closedWorld\<lparr>ticks := 2\<rparr>) \<and>
   logEnd exEnv exLogger closedWorld
     = (Inl (Error ''No latest incomplete event found in the past 7 days.''),
        closedWorld\<lparr>ticks := 2\<rparr>)"
proof -
  have c: "calendarConnection exLogger = None" by (simp add: exLogger_def)
  have f: "fault exEnv (Suc (ticks closedWorld)) = None" by (simp add: exEnv_def)
  have n: "\<forall>e\<in>set (items closedWorld).
      inLookback (clock exEnv (ticks closedWorld)) e \<longrightarrow> \<not> incomplete e"
    by (simp add: closedWorld_def exEvent_def incomplete_def readCompleted_def marker_def)
  have l: "filter (inLookback (clock exEnv (ticks closedWorld))) (items closedWorld) \<noteq> []"
    by (simp add: closedWorld_def exEvent_def exEnv_def startsWithin_def)
  from no_open_session_error [OF c f n, of "''UTC''" 0 "''edit A''"]
  obtain msg where m: "msg = ''Found no events in the past 7 days.'' \<or>
               msg = ''No latest incomplete event found in the past 7 days.''"
    and r: "getLatestIncompleteLogEvent exEnv exLogger (clock exEnv (ticks closedWorld)) ''UTC''
               (closedWorld\<lparr>ticks := Suc (ticks closedWorld)\<rparr>)
             = (Inl (Error msg), closedWorld\<lparr>ticks := Suc (Suc (ticks closedWorld))\<rparr>)"
    and a: "logActivity (Suc 0) exEnv exLogger ''edit A'' closedWorld
             = Some (Inl (Error msg), closedWorld\<lparr>ticks := Suc (Suc (ticks closedWorld))\<rparr>)"
    and e: "logEnd exEnv exLogger closedWorld
             = (Inl (Error msg), closedWorld\<lparr>ticks := Suc (Suc (ticks closedWorld))\<rparr>)"
    by blast
  have "getLatestIncompleteLogEvent exEnv exLogger (clock exEnv (ticks closedWorld)) ''UTC''
               (closedWorld\<lparr>ticks := Suc (ticks closedWorld)\<rparr>)
      = (Inl (Error ''No latest incomplete event found in the past 7 days.''),
         closedWorld\<lparr>ticks := Suc (Suc (ticks closedWorld))\<rparr>)"
    using resolver_none [of exLogger exEnv "closedWorld\<lparr>ticks := Suc (ticks closedWorld)\<rparr>"
        "clock exEnv (ticks closedWorld)" "''UTC''"] c f n l by simp
  with r have msg: "msg = ''No latest incomplete event found in the past 7 days.''" by simp
  have t2: "Suc (Suc (ticks closedWorld)) = 2" by (simp add: closedWorld_def)
  from a e msg t2 show ?thesis by simp
qed

subsection \<open>The call depth\<close>

text \<open>A call that returns within some call depth returns the same within any greater one.\<close>

lemma logActivity_deeper:
  "logActivity d env this m w = Some r \<Longrightarrow> logActivity (Suc d) env this m w = Some r"
proof (induction d arbitrary: w)
  case 0
  then show ?case by simp
next
  case (Suc d)
  note run = Suc.prems
  show ?case
  proof (cases "calendarConnection this")
    case (Some err)
    with run show ?thesis by simp
  next
    case None
    let ?t = "clock env (ticks w)"
    obtain r0 w2 where res: "getLatestIncompleteLogEvent env this ?t (tzGuess env)
        (w\<lparr>ticks := Suc (ticks w)\<rparr>) = (r0, w2)"
      by (cases "getLatestIncompleteLogEvent env this ?t (tzGuess env) (w\<lparr>ticks := Suc (ticks w)\<rparr>)")
    show ?thesis
    proof (cases r0)
      case (Inl err)
      with run None res show ?thesis by (auto simp: getCurrentTime_def)
    next
      case (Inr e)
      show ?thesis
      proof (cases "hasInactivity this e ?t")
        case False
        with run None res Inr show ?thesis by (auto simp: getCurrentTime_def)
      next
        case True
        obtain r3 w3 where close: "logEndDueToInactivity env this e ?t w2 = (r3, w3)"
          by (cases "logEndDueToInactivity env this e ?t w2")
        show ?thesis
        proof (cases r3)
          case (Inl err)
          with run None res Inr True close show ?thesis by (auto simp: getCurrentTime_def)
        next
          case r3: (Inr u)
          obtain r4 w4 where restart: "logStart env this w3 = (r4, w4)"
            by (cases "logStart env this w3")
          show ?thesis
          proof (cases r4)
            case (Inl err)
            with run None res Inr True close r3 restart show ?thesis
              by (auto simp: getCurrentTime_def)
          next
            case r4: (Inr u')
            from run None res Inr True close r3 restart r4
            have "logActivity d env this m w4 = Some r" by (simp add: getCurrentTime_def)
            then have "logActivity (Suc d) env this m w4 = Some r" by (rule Suc.IH)
            with None res Inr True close r3 restart r4 show ?thesis
              by (simp add: getCurrentTime_def del: logActivity.simps)
                 (simp add: logActivity.simps(2) [of "Suc d"] getCurrentTime_def del: logActivity.simps)
          qed
        qed
      qed
    qed
  qed
qed

lemma logActivity_depth_mono:
  "logActivity d env this m w = Some r \<Longrightarrow> logActivity (d + k) env this m w = Some r"
  by (induction k) (auto dest: logActivity_deeper simp del: logActivity.simps)

subsection \<open>One operation on the calendar\<close>

lemma foldr_max_ge: "x \<in> set xs \<Longrightarrow> x \<le> foldr max xs (a::nat)"
  by (induction xs) auto

lemma freshId_gt: "e \<in> set evs \<Longrightarrow> event_id e < freshId evs"
  using foldr_max_ge [of "event_id e" "map event_id evs" 0] by (simp add: freshId_def less_Suc_eq_le)

lemma logStart_cases:
  "calendarConnection this = None \<Longrightarrow>
   logStart env this w =
     (case fault env (Suc (ticks w)) of
        Some msg \<Rightarrow> (Inl (ApiError msg), w\<lparr>ticks := Suc (Suc (ticks w))\<rparr>)
      | None \<Rightarrow> (Inr (), \<lparr>items = items w @ [startedEvent env this w], ticks = Suc (Suc (ticks w))\<rparr>))"
  by (simp add: logStart_def getCurrentTime_def events_insert_def startedEvent_def Let_def
        split: option.splits)

lemma logStart_Inr:
  assumes "logStart env this w = (Inr (), w')"
  shows "w' = \<lparr>items = items w @ [startedEvent env this w], ticks = Suc (Suc (ticks w))\<rparr>"
proof (cases "calendarConnection this")
  case None
  from assms logStart_cases [OF None, of env w] show ?thesis
    by (auto split: option.splits)
next
  case (Some err)
  with assms show ?thesis by (simp add: logStart_def)
qed

lemma startedEvent_simps:
  "event_id (startedEvent env this w) = freshId (items w)"
  "startTime (startedEvent env this w) = clock env (ticks w)"
  "updated (startedEvent env this w) = Some (DateTime (clock env (Suc (ticks w))))"
  "extendedProperties (startedEvent env this w) = Some (marker ''false'')"
  "description (startedEvent env this w) =
     Some (logLine env (clock env (ticks w)) (getLogName this (activityStarted (strings this))))"
  by (simp_all add: startedEvent_def inserted_def startResource_def startTime_def Let_def
        addToDescription_eq)

lemma incomplete_marker: "extendedProperties e = Some (marker v) \<Longrightarrow> incomplete e \<longleftrightarrow> v = ''false''"
  by (simp add: incomplete_def readCompleted_def marker_def)

lemma events_patch_cases:
  "events_patch env i r w =
     (case fault env (ticks w) of
        Some msg \<Rightarrow> (Inl (ApiError msg), w\<lparr>ticks := Suc (ticks w)\<rparr>)
      | None \<Rightarrow>
          (case find (\<lambda>e. event_id e = i) (items w) of
             None \<Rightarrow> (Inl (ApiError ''Not Found''), w\<lparr>ticks := Suc (ticks w)\<rparr>)
           | Some ev \<Rightarrow>
               (Inr (patched (clock env (ticks w)) r ev),
                \<lparr>items = map (\<lambda>e. if event_id e = i then patched (clock env (ticks w)) r e else e) (items w),
                 ticks = Suc (ticks w)\<rparr>)))"
  by (simp add: events_patch_def Let_def split: option.splits)

lemma events_patch_Inr:
  "events_patch env i r w = (Inr ev, w') \<Longrightarrow>
   w' = \<lparr>items = map (\<lambda>e. if event_id e = i then patched (clock env (ticks w)) r e else e) (items w),
         ticks = Suc (ticks w)\<rparr>"
  by (auto simp: events_patch_cases split: option.splits)

lemma resolver_Inr:
  assumes "getLatestIncompleteLogEvent env this now tz w = (Inr e, w')"
  shows "w' = w\<lparr>ticks := Suc (ticks w)\<rparr>" and "e \<in> set (items w)" and "incomplete e"
    and "inLookback now e"
    and "\<forall>x\<in>set (items w). incomplete x \<and> inLookback now x \<longrightarrow> startTime x \<le> startTime e"
proof -
  let ?evs = "sort_key startTime (filter (inLookback now) (items w))"
  from assms have conn: "calendarConnection this = None"
    by (auto simp: getLatestIncompleteLogEvent_def split: option.splits)
  from assms conn have fl: "fault env (ticks w) = None"
    by (auto simp: getLatestIncompleteLogEvent_def events_list_def Let_def listCallback_def
          split: option.splits)
  from assms resolver_ok [OF conn fl, of now tz]
  have cb: "listCallback (Inr ?evs) = Inr e" and w': "w' = w\<lparr>ticks := Suc (ticks w)\<rparr>"
    by simp_all
  from cb have f: "find incomplete (rev ?evs) = Some e" by (rule listCallback_Inr)
  from find_Some_set [OF f] have "e \<in> set ?evs" "incomplete e" by simp_all
  then show "e \<in> set (items w)" "incomplete e" "inLookback now e" by simp_all
  show "w' = w\<lparr>ticks := Suc (ticks w)\<rparr>" by (rule w')
  have "sorted (map startTime ?evs)" by simp
  from find_rev_sorted [OF this f]
  show "\<forall>x\<in>set (items w). incomplete x \<and> inLookback now x \<longrightarrow> startTime x \<le> startTime e"
    by simp
qed

lemma map_patch_last:
  "\<forall>x\<in>set old. event_id x \<noteq> event_id s \<Longrightarrow>
   map (\<lambda>x. if event_id x = event_id s then f x else x) (old @ [s]) = old @ [f s]"
  by (simp add: map_idI)

lemma patched_fields:
  "extendedProperties (patched st r e) = Some (p_extendedProperties r)"
  "description (patched st r e) = Some (p_description r)"
  "updated (patched st r e) = Some (DateTime st)"
  "summary (patched st r e) = p_summary r"
  by (simp_all add: patched_def)

lemma logLine_nonempty: "logLine env t m \<noteq> []"
  by (simp add: logLine_def timeLabel_def)

lemma addToDescription_Some:
  "d \<noteq> [] \<Longrightarrow> addToDescription env t m (Some d) = d @ newline # logLine env t m"
  by (simp add: addToDescription_eq)

lemma addToDescription_nonempty: "addToDescription env t m d \<noteq> []"
  by (simp add: addToDescription_eq logLine_nonempty)

lemma four_lines:
  assumes "newline \<notin> set a" "newline \<notin> set b" "newline \<notin> set c" "newline \<notin> set d"
  shows "splitLines (logLine env t0 a @ newline # logLine env t1 b @ newline # logLine env t2 c @
                     newline # logLine env t3 d)
         = [logLine env t0 a, logLine env t1 b, logLine env t2 c, logLine env t3 d]"
  using assms
  by (simp add: splitLines_append splitLines_single logLine_no_newline)


subsection \<open>Reporting on the latest open event\<close>

lemma resolver_latest:
  assumes conn: "calendarConnection this = None" and fl: "fault env (ticks w) = None"
      and s: "s \<in> set (items w)" "incomplete s" "inLookback now s"
      and latest: "\<forall>x\<in>set (items w). incomplete x \<and> x \<noteq> s \<longrightarrow> startTime x < startTime s"
  shows "getLatestIncompleteLogEvent env this now tz w = (Inr s, w\<lparr>ticks := Suc (ticks w)\<rparr>)"
proof -
  let ?evs = "sort_key startTime (filter (inLookback now) (items w))"
  from s have sin: "s \<in> set ?evs" by simp
  with s(2) obtain e where cb: "listCallback (Inr ?evs) = Inr e"
    using listCallback_some by blast
  then have f: "find incomplete (rev ?evs) = Some e" by (rule listCallback_Inr)
  from find_Some_set [OF f] have e: "e \<in> set (items w)" "incomplete e" by simp_all
  have "sorted (map startTime ?evs)" by simp
  from find_rev_sorted [OF this f sin s(2)] have "startTime s \<le> startTime e" .
  with latest e have "e = s" by force
  with cb resolver_ok [OF conn fl, of now tz] show ?thesis by simp
qed

lemma events_patch_ok:
  assumes "fault env (ticks w) = None" and "s \<in> set (items w)"
  shows "\<exists>ev. events_patch env (event_id s) r w =
     (Inr ev, \<lparr>items = map (\<lambda>e. if event_id e = event_id s
                                then patched (clock env (ticks w)) r e else e) (items w),
               ticks = Suc (ticks w)\<rparr>)"
proof -
  from assms(2) have "find (\<lambda>e. event_id e = event_id s) (items w) \<noteq> None"
    by (auto simp: find_None_iff)
  with assms(1) show ?thesis by (auto simp: events_patch_cases)
qed

lemma activity_forward:
  assumes conn: "calendarConnection this = None"
      and f1: "fault env (Suc (ticks w)) = None" and f2: "fault env (Suc (Suc (ticks w))) = None"
      and s: "s \<in> set (items w)" "incomplete s" "inLookback (clock env (ticks w)) s"
      and latest: "\<forall>x\<in>set (items w). incomplete x \<and> x \<noteq> s \<longrightarrow> startTime x < startTime s"
      and nl: "\<not> hasInactivity this s (clock env (ticks w))"
  shows "logActivity (Suc d) env this m w =
     Some (Inr (), \<lparr>items = map (\<lambda>x. if event_id x = event_id s
                                  then patched (clock env (Suc (Suc (ticks w))))
                                         (activityPatch env this m s (clock env (ticks w)) (tzGuess env)) x
                                  else x) (items w),
                    ticks = Suc (Suc (Suc (ticks w)))\<rparr>)"
proof -
  let ?w1 = "w\<lparr>ticks := Suc (ticks w)\<rparr>"
  let ?w2 = "w\<lparr>ticks := Suc (Suc (ticks w))\<rparr>"
  have r: "getLatestIncompleteLogEvent env this (clock env (ticks w)) (tzGuess env) ?w1 = (Inr s, ?w2)"
    using resolver_latest [of this env ?w1 s "clock env (ticks w)" "tzGuess env"] conn f1 s latest
    by simp
  from events_patch_ok [of env ?w2 s "activityPatch env this m s (clock env (ticks w)) (tzGuess env)"] f2 s(1)
  obtain ev where "events_patch env (event_id s) (activityPatch env this m s (clock env (ticks w)) (tzGuess env)) ?w2 =
     (Inr ev, \<lparr>items = map (\<lambda>e. if event_id e = event_id s
                                then patched (clock env (Suc (Suc (ticks w))))
                                  (activityPatch env this m s (clock env (ticks w)) (tzGuess env)) e else e) (items w),
               ticks = Suc (Suc (Suc (ticks w)))\<rparr>)"
    by auto
  with conn r nl show ?thesis by (simp add: getCurrentTime_def)
qed

lemma end_forward:
  assumes conn: "calendarConnection this = None"
      and f1: "fault env (Suc (ticks w)) = None" and f2: "fault env (Suc (Suc (ticks w))) = None"
      and s: "s \<in> set (items w)" "incomplete s" "inLookback (clock env (ticks w)) s"
      and latest: "\<forall>x\<in>set (items w). incomplete x \<and> x \<noteq> s \<longrightarrow> startTime x < startTime s"
      and nl: "\<not> hasInactivity this s (clock env (ticks w))"
  shows "logEnd env this w =
     (Inr (), \<lparr>items = map (\<lambda>x. if event_id x = event_id s
                                  then patched (clock env (Suc (Suc (ticks w))))
                                         (concludePatch env this s (clock env (ticks w)) (tzGuess env)) x
                                  else x) (items w),
                    ticks = Suc (Suc (Suc (ticks w)))\<rparr>)"
proof -
  let ?w1 = "w\<lparr>ticks := Suc (ticks w)\<rparr>"
  let ?w2 = "w\<lparr>ticks := Suc (Suc (ticks w))\<rparr>"
  have r: "getLatestIncompleteLogEvent env this (clock env (ticks w)) (tzGuess env) ?w1 = (Inr s, ?w2)"
    using resolver_latest [of this env ?w1 s "clock env (ticks w)" "tzGuess env"] conn f1 s latest
    by simp
  from events_patch_ok [of env ?w2 s "concludePatch env this s (clock env (ticks w)) (tzGuess env)"] f2 s(1)
  obtain ev where "events_patch env (event_id s) (concludePatch env this s (clock env (ticks w)) (tzGuess env)) ?w2 =
     (Inr ev, \<lparr>items = map (\<lambda>e. if event_id e = event_id s
                                then patched (clock env (Suc (Suc (ticks w))))
                                  (concludePatch env this s (clock env (ticks w)) (tzGuess env)) e else e) (items w),
               ticks = Suc (Suc (Suc (ticks w)))\<rparr>)"
    by auto
  with conn r nl show ?thesis by (simp add: logEnd_def getCurrentTime_def)
qed

lemma activity_single:
  assumes conn: "calendarConnection this = None"
      and f1: "fault env (Suc (ticks w)) = None" and f2: "fault env (Suc (Suc (ticks w))) = None"
      and shape: "items w = old @ [s]"
      and ids: "\<forall>x\<in>set old. event_id x \<noteq> event_id s"
      and older: "\<forall>x\<in>set old. incomplete x \<longrightarrow> startTime x < startTime s"
      and op: "incomplete s" and look: "inLookback (clock env (ticks w)) s"
      and nl: "\<not> hasInactivity this s (clock env (ticks w))"
  shows "logActivity (Suc d) env this m w =
     Some (Inr (), \<lparr>items = old @ [patched (clock env (Suc (Suc (ticks w))))
                                   (activityPatch env this m s (clock env (ticks w)) (tzGuess env)) s],
                    ticks = Suc (Suc (Suc (ticks w)))\<rparr>)"
proof -
  from shape have sin: "s \<in> set (items w)" by simp
  from shape older have latest: "\<forall>x\<in>set (items w). incomplete x \<and> x \<noteq> s \<longrightarrow> startTime x < startTime s"
    by auto
  from activity_forward [OF conn f1 f2 sin op look latest nl, of d m]
    map_patch_last [OF ids] shape
  show ?thesis by simp
qed

lemma end_single:
  assumes conn: "calendarConnection this = None"
      and f1: "fault env (Suc (ticks w)) = None" and f2: "fault env (Suc (Suc (ticks w))) = None"
      and shape: "items w = old @ [s]"
      and ids: "\<forall>x\<in>set old. event_id x \<noteq> event_id s"
      and older: "\<forall>x\<in>set old. incomplete x \<longrightarrow> startTime x < startTime s"
      and op: "incomplete s" and look: "inLookback (clock env (ticks w)) s"
      and nl: "\<not> hasInactivity this s (clock env (ticks w))"
  shows "logEnd env this w =
     (Inr (), \<lparr>items = old @ [patched (clock env (Suc (Suc (ticks w))))
                              (concludePatch env this s (clock env (ticks w)) (tzGuess env)) s],
               ticks = Suc (Suc (Suc (ticks w)))\<rparr>)"
proof -
  from shape have sin: "s \<in> set (items w)" by simp
  from shape older have latest: "\<forall>x\<in>set (items w). incomplete x \<and> x \<noteq> s \<longrightarrow> startTime x < startTime s"
    by auto
  from end_forward [OF conn f1 f2 sin op look latest nl]
    map_patch_last [OF ids] shape
  show ?thesis by simp
qed

lemma patched_stamp:
  "newDate (js_or (updated (patched st r e)) (created (patched st r e))) = timeClip st"
  by (simp add: patched_fields js_or_def)

subsection \<open>A session without a lapse\<close>

text \<open>
  C2, as the code has it. Let \<open>logStart\<close>, \<open>logActivity\<close> with \<open>m1\<close>,
  \<open>logActivity\<close> with \<open>m2\<close> and \<open>logEnd\<close> run one after the other, the first
  interaction being number \<open>ticks w0\<close>. Let the connection stand and the seven remote
  calls succeed; let every event that is open on the calendar beforehand have started
  before the session; let the clock at each of the three later steps be not before the
  start of the session and within the lookback window of it; and let the policy find the
  event of the session, as it was last written, not lapsed at each of these steps. Then
  the four calls return with success, the reports at any call depth. The calendar gains
  exactly one event and its other events stay as they were, open or not; that event keeps
  its identifier, carries the marker \<open>false\<close> after each of the first three steps and
  the marker \<open>true\<close> after \<open>logEnd\<close>, and its final description is the started line,
  the line of \<open>m1\<close>, the line of \<open>m2\<close> and the concluded line, joined by newlines
  in that order: four lines when none of the four texts has a newline.
\<close>

theorem session_single_event:
  assumes conn: "calendarConnection this = None"
      and calls: "\<forall>k\<in>{1, 3, 4, 6, 7, 9, 10}. fault env (ticks w0 + k) = None"
      and earlier: "\<forall>x\<in>set (items w0). incomplete x \<longrightarrow> startTime x < clock env (ticks w0)"
      and window: "\<forall>k\<in>{2, 5, 8}. clock env (ticks w0) \<le> clock env (ticks w0 + k) \<and>
                     clock env (ticks w0 + k) - clock env (ticks w0) \<le> 604800000"
      and quiet1: "\<not> lapsedSince this (clock env (ticks w0 + 1)) (clock env (ticks w0 + 2))"
      and quiet2: "\<not> lapsedSince this (clock env (ticks w0 + 4)) (clock env (ticks w0 + 5))"
      and quiet3: "\<not> lapsedSince this (clock env (ticks w0 + 7)) (clock env (ticks w0 + 8))"
  shows "\<exists>w1 w2 w3 w4 e1 e2 e3 e4.
      logStart env this w0 = (Inr (), w1) \<and>
      logActivity (Suc d1) env this m1 w1 = Some (Inr (), w2) \<and>
      logActivity (Suc d2) env this m2 w2 = Some (Inr (), w3) \<and>
      logEnd env this w3 = (Inr (), w4) \<and>
      items w1 = items w0 @ [e1] \<and> items w2 = items w0 @ [e2] \<and>
      items w3 = items w0 @ [e3] \<and> items w4 = items w0 @ [e4] \<and>
      event_id e2 = event_id e1 \<and> event_id e3 = event_id e1 \<and> event_id e4 = event_id e1 \<and>
      event_id e1 \<notin> event_id ` set (items w0) \<and>
      extendedProperties e1 = Some (marker ''false'') \<and>
      extendedProperties e2 = Some (marker ''false'') \<and>
      extendedProperties e3 = Some (marker ''false'') \<and>
      extendedProperties e4 = Some (marker ''true'') \<and>
      description e4 = Some (
        logLine env (clock env (ticks w0)) (getLogName this (activityStarted (strings this))) @
        newline # logLine env (clock env (ticks w1)) m1 @
        newline # logLine env (clock env (ticks w2)) m2 @
        newline # logLine env (clock env (ticks w3)) (getLogName this (activityConcluded (strings this)))) \<and>
      (newline \<notin> set (getLogName this (activityStarted (strings this))) \<and> newline \<notin> set m1 \<and>
       newline \<notin> set m2 \<and> newline \<notin> set (getLogName this (activityConcluded (strings this))) \<longrightarrow>
         (\<exists>d. description e4 = Some d \<and> splitLines d =
            [logLine env (clock env (ticks w0)) (getLogName this (activityStarted (strings this))),
             logLine env (clock env (ticks w1)) m1,
             logLine env (clock env (ticks w2)) m2,
             logLine env (clock env (ticks w3)) (getLogName this (activityConcluded (strings this)))]))"
proof -
  let ?old = "items w0"
  let ?tz = "tzGuess env"
  let ?n = "ticks w0"
  define e1 where "e1 = startedEvent env this w0"
  define w1 where "w1 = \<lparr>items = ?old @ [e1], ticks = ?n + 2\<rparr>"
  define e2 where "e2 = patched (clock env (?n + 4))
                          (activityPatch env this m1 e1 (clock env (?n + 2)) ?tz) e1"
  define w2 where "w2 = \<lparr>items = ?old @ [e2], ticks = ?n + 5\<rparr>"
  define e3 where "e3 = patched (clock env (?n + 7))
                          (activityPatch env this m2 e2 (clock env (?n + 5)) ?tz) e2"
  define w3 where "w3 = \<lparr>items = ?old @ [e3], ticks = ?n + 8\<rparr>"
  define e4 where "e4 = patched (clock env (?n + 10))
                          (concludePatch env this e3 (clock env (?n + 8)) ?tz) e3"
  define w4 where "w4 = \<lparr>items = ?old @ [e4], ticks = ?n + 11\<rparr>"
  from calls have f: "fault env (?n + 1) = None" "fault env (?n + 3) = None"
    "fault env (?n + 4) = None" "fault env (?n + 6) = None" "fault env (?n + 7) = None"
    "fault env (?n + 9) = None" "fault env (?n + 10) = None" by simp_all
  from window have win:
    "clock env ?n \<le> clock env (?n + 2)" "clock env (?n + 2) - clock env ?n \<le> 604800000"
    "clock env ?n \<le> clock env (?n + 5)" "clock env (?n + 5) - clock env ?n \<le> 604800000"
    "clock env ?n \<le> clock env (?n + 8)" "clock env (?n + 8) - clock env ?n \<le> 604800000"
    by simp_all
  have id1: "event_id e1 = freshId ?old" by (simp add: e1_def startedEvent_simps)
  have fresh: "\<forall>x\<in>set ?old. event_id x \<noteq> event_id e1"
    using freshId_gt [of _ ?old] id1 by (metis less_irrefl)
  have id2: "event_id e2 = event_id e1" by (simp add: e2_def patched_frame)
  have id3: "event_id e3 = event_id e1" by (simp add: e3_def patched_frame id2)
  have id4: "event_id e4 = event_id e1" by (simp add: e4_def patched_frame id3)
  have st1: "startTime e1 = clock env ?n" by (simp add: e1_def startedEvent_simps)
  have st2: "startTime e2 = clock env ?n" using st1 by (simp add: e2_def startTime_def patched_frame)
  have st3: "startTime e3 = clock env ?n" using st2 by (simp add: e3_def startTime_def patched_frame)
  have m1: "extendedProperties e1 = Some (marker ''false'')"
    by (simp add: e1_def startedEvent_simps)
  have m2: "extendedProperties e2 = Some (marker ''false'')"
    by (simp add: e2_def patched_fields activityPatch_def)
  have m3: "extendedProperties e3 = Some (marker ''false'')"
    by (simp add: e3_def patched_fields activityPatch_def)
  have m4: "extendedProperties e4 = Some (marker ''true'')"
    by (simp add: e4_def patched_fields concludePatch_def Let_def)
  have o1: "incomplete e1" using m1 by (simp add: incomplete_marker)
  have o2: "incomplete e2" using m2 by (simp add: incomplete_marker)
  have o3: "incomplete e3" using m3 by (simp add: incomplete_marker)
  have n1: "\<not> hasInactivity this e1 (clock env (?n + 2))"
  proof -
    have "newDate (js_or (updated e1) (created e1)) = timeClip (clock env (?n + 1))"
      by (simp add: e1_def startedEvent_simps js_or_def eval_nat_numeral)
    from hasInactivity_stamp [OF this] quiet1 show ?thesis by simp
  qed
  have n2: "\<not> hasInactivity this e2 (clock env (?n + 5))"
    using hasInactivity_stamp [OF patched_stamp, of this "clock env (?n + 4)" _ e1] quiet2
    by (simp add: e2_def)
  have n3: "\<not> hasInactivity this e3 (clock env (?n + 8))"
    using hasInactivity_stamp [OF patched_stamp, of this "clock env (?n + 7)" _ e2] quiet3
    by (simp add: e3_def)
  have s1: "logStart env this w0 = (Inr (), w1)"
    using logStart_cases [OF conn, of env w0] f(1) by (simp add: w1_def e1_def eval_nat_numeral)
  have s2: "logActivity (Suc d1) env this m1 w1 = Some (Inr (), w2)"
  proof -
    have "logActivity (Suc d1) env this m1 w1 =
       Some (Inr (), \<lparr>items = ?old @ [patched (clock env (Suc (Suc (ticks w1))))
                                   (activityPatch env this m1 e1 (clock env (ticks w1)) ?tz) e1],
                      ticks = Suc (Suc (Suc (ticks w1)))\<rparr>)"
    proof (rule activity_single [OF conn])
      show "fault env (Suc (ticks w1)) = None" using f(2) by (simp add: w1_def eval_nat_numeral)
      show "fault env (Suc (Suc (ticks w1))) = None" using f(3) by (simp add: w1_def eval_nat_numeral)
      show "items w1 = ?old @ [e1]" by (simp add: w1_def eval_nat_numeral)
      show "\<forall>x\<in>set ?old. event_id x \<noteq> event_id e1" by (rule fresh)
      show "\<forall>x\<in>set ?old. incomplete x \<longrightarrow> startTime x < startTime e1"
        using earlier st1 by simp
      show "incomplete e1" by (rule o1)
      show "inLookback (clock env (ticks w1)) e1"
        using win(1,2) st1 by (simp add: w1_def startsWithin_def startTime_def eval_nat_numeral)
      show "\<not> hasInactivity this e1 (clock env (ticks w1))" using n1 by (simp add: w1_def eval_nat_numeral)
    qed
    then show ?thesis by (simp add: w1_def w2_def e2_def eval_nat_numeral)
  qed
  have s3: "logActivity (Suc d2) env this m2 w2 = Some (Inr (), w3)"
  proof -
    have "logActivity (Suc d2) env this m2 w2 =
       Some (Inr (), \<lparr>items = ?old @ [patched (clock env (Suc (Suc (ticks w2))))
                                   (activityPatch env this m2 e2 (clock env (ticks w2)) ?tz) e2],
                      ticks = Suc (Suc (Suc (ticks w2)))\<rparr>)"
    proof (rule activity_single [OF conn])
      show "fault env (Suc (ticks w2)) = None" using f(4) by (simp add: w2_def eval_nat_numeral)
      show "fault env (Suc (Suc (ticks w2))) = None" using f(5) by (simp add: w2_def eval_nat_numeral)
      show "items w2 = ?old @ [e2]" by (simp add: w2_def eval_nat_numeral)
      show "\<forall>x\<in>set ?old. event_id x \<noteq> event_id e2" using fresh id2 by simp
      show "\<forall>x\<in>set ?old. incomplete x \<longrightarrow> startTime x < startTime e2"
        using earlier st2 by simp
      show "incomplete e2" by (rule o2)
      show "inLookback (clock env (ticks w2)) e2"
        using win(3,4) st2 by (simp add: w2_def startsWithin_def startTime_def eval_nat_numeral)
      show "\<not> hasInactivity this e2 (clock env (ticks w2))" using n2 by (simp add: w2_def eval_nat_numeral)
    qed
    then show ?thesis by (simp add: w2_def w3_def e3_def eval_nat_numeral)
  qed
  have s4: "logEnd env this w3 = (Inr (), w4)"
  proof -
    have "logEnd env this w3 =
       (Inr (), \<lparr>items = ?old @ [patched (clock env (Suc (Suc (ticks w3))))
                              (concludePatch env this e3 (clock env (ticks w3)) ?tz) e3],
                 ticks = Suc (Suc (Suc (ticks w3)))\<rparr>)"
    proof (rule end_single [OF conn])
      show "fault env (Suc (ticks w3)) = None" using f(6) by (simp add: w3_def eval_nat_numeral)
      show "fault env (Suc (Suc (ticks w3))) = None" using f(7) by (simp add: w3_def eval_nat_numeral)
      show "items w3 = ?old @ [e3]" by (simp add: w3_def eval_nat_numeral)
      show "\<forall>x\<in>set ?old. event_id x \<noteq> event_id e3" using fresh id3 by simp
      show "\<forall>x\<in>set ?old. incomplete x \<longrightarrow> startTime x < startTime e3"
        using earlier st3 by simp
      show "incomplete e3" by (rule o3)
      show "inLookback (clock env (ticks w3)) e3"
        using win(5,6) st3 by (simp add: w3_def startsWithin_def startTime_def eval_nat_numeral)
      show "\<not> hasInactivity this e3 (clock env (ticks w3))" using n3 by (simp add: w3_def eval_nat_numeral)
    qed
    then show ?thesis by (simp add: w3_def w4_def e4_def eval_nat_numeral)
  qed
  let ?l0 = "logLine env (clock env ?n) (getLogName this (activityStarted (strings this)))"
  let ?l1 = "logLine env (clock env (?n + 2)) m1"
  let ?l2 = "logLine env (clock env (?n + 5)) m2"
  let ?l3 = "logLine env (clock env (?n + 8)) (getLogName this (activityConcluded (strings this)))"
  have d1: "description e1 = Some ?l0" by (simp add: e1_def startedEvent_simps)
  have d2: "description e2 = Some (?l0 @ newline # ?l1)"
    by (simp add: e2_def patched_fields activityPatch_def d1 addToDescription_Some logLine_nonempty)
  have d3: "description e3 = Some (?l0 @ newline # ?l1 @ newline # ?l2)"
    by (simp add: e3_def patched_fields activityPatch_def d2 addToDescription_Some)
  have d4: "description e4 = Some (?l0 @ newline # ?l1 @ newline # ?l2 @ newline # ?l3)"
    by (simp add: e4_def patched_fields concludePatch_def Let_def d3 addToDescription_Some)
  from fresh have nin: "event_id e1 \<notin> event_id ` set ?old" by auto
  have l4: "newline \<notin> set (getLogName this (activityStarted (strings this))) \<and> newline \<notin> set m1 \<and>
       newline \<notin> set m2 \<and> newline \<notin> set (getLogName this (activityConcluded (strings this))) \<longrightarrow>
       splitLines (?l0 @ newline # ?l1 @ newline # ?l2 @ newline # ?l3) = [?l0, ?l1, ?l2, ?l3]"
    using four_lines by blast
  have t: "ticks w1 = ?n + 2" "ticks w2 = ?n + 5" "ticks w3 = ?n + 8"
    "items w1 = ?old @ [e1]" "items w2 = ?old @ [e2]" "items w3 = ?old @ [e3]" "items w4 = ?old @ [e4]"
    by (simp_all add: w1_def w2_def w3_def w4_def)
  show ?thesis
    apply (rule exI [of _ w1], rule exI [of _ w2], rule exI [of _ w3], rule exI [of _ w4])
    apply (rule exI [of _ e1], rule exI [of _ e2], rule exI [of _ e3], rule exI [of _ e4])
    using s1 s2 s3 s4 t id2 id3 id4 nin m1 m2 m3 m4 d4 l4 by simp
qed

theorem session_single_event_witness:
  "logStart lateEnv exLogger staleWorld = (Inr (), afterStart) \<and>
   logActivity (Suc 0) lateEnv exLogger ''edit A'' afterStart = Some (Inr (), afterFirst) \<and>
   logActivity (Suc 0) lateEnv exLogger ''edit B'' afterFirst = Some (Inr (), afterSecond) \<and>
   logEnd lateEnv exLogger afterSecond = (Inr (), afterEnd) \<and>
   openStates staleWorld = [(1, True)] \<and>
   openStates afterStart = [(1, True), (2, True)] \<and>
   openStates afterFirst = [(1, True), (2, True)] \<and>
   openStates afterSecond = [(1, True), (2, True)] \<and>
   openStates afterEnd = [(1, True), (2, False)] \<and>
   map description (items afterEnd) =
     [Some ''09:00 - entry'',
      Some (''01:16 '' @ en_dash @ '' Started working on proj'' @ [newline] @
            ''01:16 '' @ en_dash @ '' edit A'' @ [newline] @
            ''01:16 '' @ en_dash @ '' edit B'' @ [newline] @
            ''01:16 '' @ en_dash @ '' Worked on proj'')]"
proof -
  have conn: "calendarConnection exLogger = None" by (simp add: exLogger_def)
  have calls: "\<forall>k\<in>{1, 3, 4, 6, 7, 9, 10}. fault lateEnv (ticks staleWorld + k) = None"
    by (simp add: lateEnv_def)
  have earlier: "\<forall>x\<in>set (items staleWorld). incomplete x \<longrightarrow>
                   startTime x < clock lateEnv (ticks staleWorld)"
    by code_simp
  have window: "\<forall>k\<in>{2, 5, 8}.
      clock lateEnv (ticks staleWorld) \<le> clock lateEnv (ticks staleWorld + k) \<and>
      clock lateEnv (ticks staleWorld + k) - clock lateEnv (ticks staleWorld) \<le> 604800000"
    by (simp add: lateEnv_def)
  have quiet1: "\<not> lapsedSince exLogger (clock lateEnv (ticks staleWorld + 1))
                    (clock lateEnv (ticks staleWorld + 2))"
    by code_simp
  have quiet2: "\<not> lapsedSince exLogger (clock lateEnv (ticks staleWorld + 4))
                    (clock lateEnv (ticks staleWorld + 5))"
    by code_simp
  have quiet3: "\<not> lapsedSince exLogger (clock lateEnv (ticks staleWorld + 7))
                    (clock lateEnv (ticks staleWorld + 8))"
    by code_simp
  have s1: "logStart lateEnv exLogger staleWorld = (Inr (), afterStart)" by code_simp
  have s2: "logActivity (Suc 0) lateEnv exLogger ''edit A'' afterStart = Some (Inr (), afterFirst)"
    by code_simp
  have s3: "logActivity (Suc 0) lateEnv exLogger ''edit B'' afterFirst = Some (Inr (), afterSecond)"
    by code_simp
  have s4: "logEnd lateEnv exLogger afterSecond = (Inr (), afterEnd)" by code_simp
  have o: "openStates staleWorld = [(1, True)]"
       "openStates afterStart = [(1, True), (2, True)]"
       "openStates afterFirst = [(1, True), (2, True)]"
       "openStates afterSecond = [(1, True), (2, True)]"
       "openStates afterEnd = [(1, True), (2, False)]"
    by code_simp+
  have d: "map description (items afterEnd) =
     [Some ''09:00 - entry'',
      Some (''01:16 '' @ en_dash @ '' Started working on proj'' @ [newline] @
            ''01:16 '' @ en_dash @ '' edit A'' @ [newline] @
            ''01:16 '' @ en_dash @ '' edit B'' @ [newline] @
            ''01:16 '' @ en_dash @ '' Worked on proj'')]"
    by code_simp
  from session_single_event [OF conn calls earlier window quiet1 quiet2 quiet3,
      of 0 "''edit A''" 0 "''edit B''"] s1 s2 s3 s4 o d
  show ?thesis by blast
qed

text \<open>
  The claim C2 as written fails when an event that is open beforehand starts after the
  session does. No step finds an event lapsed and all four calls succeed, but the resolver
  gives the other event at every step: the reports and the conclusion are written to it,
  and the event of the session stays open with the started line alone.
\<close>

theorem session_other_event_counterexample:
  "logStart exEnv exLogger aheadWorld = (Inr (), aheadStart) \<and>
   logActivity (Suc 0) exEnv exLogger ''edit A'' aheadStart = Some (Inr (), aheadFirst) \<and>
   logActivity (Suc 0) exEnv exLogger ''edit B'' aheadFirst = Some (Inr (), aheadSecond) \<and>
   logEnd exEnv exLogger aheadSecond = (Inr (), aheadEnd) \<and>
   filter (\<lambda>e. hasInactivity exLogger e (clock exEnv (ticks aheadStart))) (items aheadStart) = [] \<and>
   filter (\<lambda>e. hasInactivity exLogger e (clock exEnv (ticks aheadFirst))) (items aheadFirst) = [] \<and>
   filter (\<lambda>e. hasInactivity exLogger e (clock exEnv (ticks aheadSecond))) (items aheadSecond) = [] \<and>
   openStates aheadWorld = [(1, True)] \<and>
   openStates aheadStart = [(1, True), (2, True)] \<and>
   openStates aheadFirst = [(1, True), (2, True)] \<and>
   openStates aheadSecond = [(1, True), (2, True)] \<and>
   openStates aheadEnd = [(1, False), (2, True)] \<and>
   map description (items aheadEnd) =
     [Some (''09:00 - entry'' @ [newline] @
            ''01:00 '' @ en_dash @ '' edit A'' @ [newline] @
            ''01:00 '' @ en_dash @ '' edit B'' @ [newline] @
            ''01:00 '' @ en_dash @ '' Worked on proj''),
      Some (''01:00 '' @ en_dash @ '' Started working on proj'')]"
  by code_simp

subsection \<open>The lapse: close, restart, report again\<close>

lemma lapse_unfold:
  assumes r1: "getLatestIncompleteLogEvent env this (clock env (ticks w)) (tzGuess env)
                 (w\<lparr>ticks := Suc (ticks w)\<rparr>) = (Inr old, w2)"
      and lapsed: "hasInactivity this old (clock env (ticks w))"
      and close: "logEndDueToInactivity env this old (clock env (ticks w)) w2 = (Inr (), w3)"
      and restart: "logStart env this w3 = (Inr (), w4)"
  shows "logActivity (Suc d) env this m w = logActivity d env this m w4"
proof -
  from r1 have conn: "calendarConnection this = None"
    by (auto simp: getLatestIncompleteLogEvent_def split: option.splits)
  with r1 lapsed close restart show ?thesis by (simp add: getCurrentTime_def)
qed

lemma logEndDueToInactivity_Inr:
  assumes "logEndDueToInactivity env this old t w = (Inr (), w')"
  shows "w' = \<lparr>items = map (\<lambda>e. if event_id e = event_id old
                                then patched (clock env (ticks w)) (inactivityPatch env this old t) e
                                else e) (items w),
               ticks = Suc (ticks w)\<rparr>"
proof -
  from assms obtain ev where
    "events_patch env (event_id old) (inactivityPatch env this old t) w = (Inr ev, w')"
    by (auto simp: logEndDueToInactivity_def split: option.splits prod.splits sum.splits)
  then show ?thesis by (rule events_patch_Inr)
qed

lemma inactivityPatch_marker: "p_extendedProperties (inactivityPatch env this e t) = marker ''true''"
  by (simp add: inactivityPatch_def Let_def)

lemma retry_world:
  assumes r1: "getLatestIncompleteLogEvent env this (clock env (ticks w)) (tzGuess env)
                 (w\<lparr>ticks := Suc (ticks w)\<rparr>) = (Inr old, w2)"
      and close: "logEndDueToInactivity env this old (clock env (ticks w)) w2 = (Inr (), w3)"
      and restart: "logStart env this w3 = (Inr (), w4)"
  shows "ticks w3 = Suc (Suc (Suc (ticks w)))"
    and "items w3 = map (\<lambda>e. if event_id e = event_id old
                                then patched (clock env (Suc (Suc (ticks w))))
                                       (inactivityPatch env this old (clock env (ticks w))) e
                                else e) (items w)"
    and "w4 = \<lparr>items = items w3 @ [startedEvent env this w3], ticks = Suc (Suc (ticks w3))\<rparr>"
    and "old \<in> set (items w)" and "incomplete old"
proof -
  note f = resolver_Inr [OF r1]
  from f(1) have w2: "w2 = w\<lparr>ticks := Suc (Suc (ticks w))\<rparr>" by simp
  from logEndDueToInactivity_Inr [OF close] w2
  show "ticks w3 = Suc (Suc (Suc (ticks w)))"
    and "items w3 = map (\<lambda>e. if event_id e = event_id old
                                then patched (clock env (Suc (Suc (ticks w))))
                                       (inactivityPatch env this old (clock env (ticks w))) e
                                else e) (items w)"
    by simp_all
  from logStart_Inr [OF restart]
  show "w4 = \<lparr>items = items w3 @ [startedEvent env this w3], ticks = Suc (Suc (ticks w3))\<rparr>" .
  from f show "old \<in> set (items w)" "incomplete old" by simp_all
qed

lemma fresh_is_latest:
  assumes i3: "items w3 = map (\<lambda>e. if event_id e = i then patched st (inactivityPatch env this old t) e else e) (items w)"
      and earlier: "\<forall>x\<in>set (items w). incomplete x \<longrightarrow> startTime x < clock env (ticks w3)"
  shows "\<forall>x\<in>set (items w3 @ [startedEvent env this w3]).
           incomplete x \<and> x \<noteq> startedEvent env this w3 \<longrightarrow> startTime x < startTime (startedEvent env this w3)"
proof (intro ballI impI)
  fix x assume x: "x \<in> set (items w3 @ [startedEvent env this w3])"
    and ix: "incomplete x \<and> x \<noteq> startedEvent env this w3"
  then have "x \<in> set (items w3)" by auto
  with i3 obtain y where y: "y \<in> set (items w)"
    and xy: "x = (if event_id y = i then patched st (inactivityPatch env this old t) y else y)"
    by auto
  have "\<not> incomplete (patched st (inactivityPatch env this old t) y)"
    by (simp add: incomplete_marker [of _ "''true''"] patched_fields inactivityPatch_marker)
  with ix xy have "x = y" by (auto split: if_splits)
  with ix y earlier have "startTime x < clock env (ticks w3)" by blast
  then show "startTime x < startTime (startedEvent env this w3)"
    by (simp add: startedEvent_simps)
qed

lemma resolver_fault:
  "calendarConnection this = None \<Longrightarrow> fault env (ticks w) = Some msg \<Longrightarrow>
   getLatestIncompleteLogEvent env this now tz w = (Inl (ApiError msg), w\<lparr>ticks := Suc (ticks w)\<rparr>)"
  by (simp add: getLatestIncompleteLogEvent_def events_list_def Let_def listCallback_def)

lemma retry_facts:
  assumes r1: "getLatestIncompleteLogEvent env this (clock env (ticks w)) (tzGuess env)
                 (w\<lparr>ticks := Suc (ticks w)\<rparr>) = (Inr old, w2)"
      and close: "logEndDueToInactivity env this old (clock env (ticks w)) w2 = (Inr (), w3)"
      and restart: "logStart env this w3 = (Inr (), w4)"
      and earlier: "\<forall>x\<in>set (items w). incomplete x \<longrightarrow> startTime x < clock env (ticks w3)"
      and mono: "clock env (ticks w3) \<le> clock env (ticks w4)"
      and look: "clock env (ticks w4) - clock env (ticks w3) \<le> 604800000"
      and prompt: "withinThreshold (of_int (clock env (ticks w4) - clock env (Suc (ticks w3))))
                     (msUntilInactivity this)"
  shows "startedEvent env this w3 \<in> set (items w4)"
    and "incomplete (startedEvent env this w3)"
    and "inLookback (clock env (ticks w4)) (startedEvent env this w3)"
    and "\<forall>x\<in>set (items w4). incomplete x \<and> x \<noteq> startedEvent env this w3 \<longrightarrow>
           startTime x < startTime (startedEvent env this w3)"
    and "\<not> hasInactivity this (startedEvent env this w3) (clock env (ticks w4))"
proof -
  note rw = retry_world [OF r1 close restart]
  let ?f = "startedEvent env this w3"
  show "?f \<in> set (items w4)" using rw(3) by simp
  show "incomplete ?f"
    by (simp add: incomplete_marker [of _ "''false''"] startedEvent_simps)
  show "inLookback (clock env (ticks w4)) ?f"
    using mono look by (simp add: startsWithin_def startedEvent_simps [unfolded startTime_def])
  show "\<forall>x\<in>set (items w4). incomplete x \<and> x \<noteq> ?f \<longrightarrow> startTime x < startTime ?f"
    using fresh_is_latest [OF rw(2) earlier] rw(3) by simp
  have "newDate (js_or (updated ?f) (created ?f)) = timeClip (clock env (Suc (ticks w3)))"
    by (simp add: startedEvent_simps js_or_def)
  from hasInactivity_stamp [OF this, of this "clock env (ticks w4)"] within_not_lapsed [OF prompt]
  show "\<not> hasInactivity this ?f (clock env (ticks w4))" by simp
qed


text \<open>
  C6, as the code has it. Let a \<open>logActivity\<close> call take the inactivity branch and reach its second call:
  the resolver gave an event, that event is lapsed, the close and the restart succeeded.
  Let the retry read the clock within the inactivity threshold of the time the fresh
  event was written, not before the restart and within the lookback window of it, and
  let every open event of the calendar have started before the restart. Then the fresh
  event is not lapsed at the retry and, unless the list call fails, it is the event the
  resolver gives; the second call returns without a third one, and the whole call
  returns with call depth two, whatever the remote calls of the retry answer.
\<close>

theorem lapse_retry_depth_two:
  assumes r1: "getLatestIncompleteLogEvent env this (clock env (ticks w)) (tzGuess env)
                 (w\<lparr>ticks := Suc (ticks w)\<rparr>) = (Inr old, w2)"
      and lapsed: "hasInactivity this old (clock env (ticks w))"
      and close: "logEndDueToInactivity env this old (clock env (ticks w)) w2 = (Inr (), w3)"
      and restart: "logStart env this w3 = (Inr (), w4)"
      and earlier: "\<forall>x\<in>set (items w). incomplete x \<longrightarrow> startTime x < clock env (ticks w3)"
      and mono: "clock env (ticks w3) \<le> clock env (ticks w4)"
      and look: "clock env (ticks w4) - clock env (ticks w3) \<le> 604800000"
      and prompt: "withinThreshold (of_int (clock env (ticks w4) - clock env (Suc (ticks w3))))
                     (msUntilInactivity this)"
  shows "\<not> hasInactivity this (startedEvent env this w3) (clock env (ticks w4)) \<and>
         (fault env (Suc (ticks w4)) = None \<longrightarrow>
            getLatestIncompleteLogEvent env this (clock env (ticks w4)) (tzGuess env)
                (w4\<lparr>ticks := Suc (ticks w4)\<rparr>)
              = (Inr (startedEvent env this w3), w4\<lparr>ticks := Suc (Suc (ticks w4))\<rparr>)) \<and>
         (\<exists>r. logActivity (Suc 0) env this m w4 = Some r) \<and>
         (\<exists>r. logActivity (Suc (Suc 0)) env this m w = Some r)"
proof -
  note rf = retry_facts [OF r1 close restart earlier mono look prompt]
  let ?f = "startedEvent env this w3"
  let ?now = "clock env (ticks w4)"
  let ?w5 = "w4\<lparr>ticks := Suc (ticks w4)\<rparr>"
  from r1 have conn: "calendarConnection this = None"
    by (auto simp: getLatestIncompleteLogEvent_def split: option.splits)
  have found: "getLatestIncompleteLogEvent env this ?now (tzGuess env) ?w5
                 = (Inr ?f, w4\<lparr>ticks := Suc (Suc (ticks w4))\<rparr>)"
    if "fault env (Suc (ticks w4)) = None"
    using resolver_latest [of this env ?w5 ?f ?now "tzGuess env"] conn that rf(1-4) by simp
  have one: "\<exists>r. logActivity (Suc 0) env this m w4 = Some r"
  proof (cases "fault env (Suc (ticks w4))")
    case (Some msg)
    from resolver_fault [of this env ?w5 msg ?now "tzGuess env"] conn Some
    show ?thesis by (simp add: getCurrentTime_def)
  next
    case None
    obtain pr pw where "events_patch env (event_id ?f)
        (activityPatch env this m ?f ?now (tzGuess env)) (w4\<lparr>ticks := Suc (Suc (ticks w4))\<rparr>) = (pr, pw)"
      by (cases "events_patch env (event_id ?f)
        (activityPatch env this m ?f ?now (tzGuess env)) (w4\<lparr>ticks := Suc (Suc (ticks w4))\<rparr>)")
    with found [OF None] conn rf(5) show ?thesis
      by (cases pr) (simp_all add: getCurrentTime_def)
  qed
  have "logActivity (Suc (Suc 0)) env this m w = logActivity (Suc 0) env this m w4"
    by (rule lapse_unfold [OF r1 lapsed close restart])
  with one rf(5) found show ?thesis by simp
qed


theorem lapse_retry_depth_two_witness:
  "logActivity (Suc 0) lateEnv exLogger ''edit B'' lapseRestarted \<noteq> None \<and>
   logActivity (Suc (Suc 0)) lateEnv exLogger ''edit B'' staleWorld \<noteq> None \<and>
   \<not> hasInactivity exLogger (startedEvent lateEnv exLogger lapseClosed)
       (clock lateEnv (ticks lapseRestarted))"
proof -
  have r1: "getLatestIncompleteLogEvent lateEnv exLogger (clock lateEnv (ticks staleWorld))
              (tzGuess lateEnv) (staleWorld\<lparr>ticks := Suc (ticks staleWorld)\<rparr>)
            = (Inr (exEvent 1 0 0 ''false''), staleWorld\<lparr>ticks := 2\<rparr>)"
    by code_simp
  have lapsed: "hasInactivity exLogger (exEvent 1 0 0 ''false'') (clock lateEnv (ticks staleWorld))"
    by code_simp
  have close: "logEndDueToInactivity lateEnv exLogger (exEvent 1 0 0 ''false'')
                 (clock lateEnv (ticks staleWorld)) (staleWorld\<lparr>ticks := 2\<rparr>) = (Inr (), lapseClosed)"
    by code_simp
  have restart: "logStart lateEnv exLogger lapseClosed = (Inr (), lapseRestarted)"
    by code_simp
  have earlier: "\<forall>x\<in>set (items staleWorld). incomplete x \<longrightarrow>
                   startTime x < clock lateEnv (ticks lapseClosed)"
    by code_simp
  have mono: "clock lateEnv (ticks lapseClosed) \<le> clock lateEnv (ticks lapseRestarted)"
    by code_simp
  have look: "clock lateEnv (ticks lapseRestarted) - clock lateEnv (ticks lapseClosed) \<le> 604800000"
    by code_simp
  have prompt: "withinThreshold
                  (of_int (clock lateEnv (ticks lapseRestarted) - clock lateEnv (Suc (ticks lapseClosed))))
                  (msUntilInactivity exLogger)"
    by code_simp
  from lapse_retry_depth_two [OF r1 lapsed close restart earlier mono look prompt, of "''edit B''"]
  show ?thesis by auto
qed


text \<open>
  The claim C6 as written fails: that the retry is within the threshold of the fresh
  \<open>logStart\<close> does not make the resolver find the fresh session. On a calendar with a
  second stale open event that starts between the first call and the retry, the first
  call closes the lapsed event and restarts, and the retry is one second after the fresh
  event was written, which is not lapsed. But the resolver of the retry gives the other
  open event, whose start is later; it is lapsed, the retry takes the inactivity branch in
  its turn, call depth two is not enough, and the call ends at depth three with four
  events, two of them open.
\<close>

theorem lapse_retry_counterexample:
  "getLatestIncompleteLogEvent lateEnv exLogger (clock lateEnv (ticks overlapWorld))
       (tzGuess lateEnv) (overlapWorld\<lparr>ticks := Suc (ticks overlapWorld)\<rparr>)
     = (Inr (exEvent 1 0 0 ''false''), overlapWorld\<lparr>ticks := 2\<rparr>) \<and>
   hasInactivity exLogger (exEvent 1 0 0 ''false'') (clock lateEnv (ticks overlapWorld)) \<and>
   logEndDueToInactivity lateEnv exLogger (exEvent 1 0 0 ''false'')
       (clock lateEnv (ticks overlapWorld)) (overlapWorld\<lparr>ticks := 2\<rparr>)
     = (Inr (), overlapClosed) \<and>
   logStart lateEnv exLogger overlapClosed = (Inr (), overlapRestarted) \<and>
   withinThreshold
     (of_int (clock lateEnv (ticks overlapRestarted) - clock lateEnv (Suc (ticks overlapClosed))))
     (msUntilInactivity exLogger) \<and>
   \<not> hasInactivity exLogger (startedEvent lateEnv exLogger overlapClosed)
       (clock lateEnv (ticks overlapRestarted)) \<and>
   event_id (startedEvent lateEnv exLogger overlapClosed) = 3 \<and>
   fst (getLatestIncompleteLogEvent lateEnv exLogger (clock lateEnv (ticks overlapRestarted))
          (tzGuess lateEnv) (overlapRestarted\<lparr>ticks := Suc (ticks overlapRestarted)\<rparr>))
     = Inr (exEvent 2 964500 0 ''false'') \<and>
   hasInactivity exLogger (exEvent 2 964500 0 ''false'') (clock lateEnv (ticks overlapRestarted)) \<and>
   logActivity (Suc (Suc 0)) lateEnv exLogger ''edit B'' overlapWorld = None \<and>
   map_option (apsnd openStates)
     (logActivity (Suc (Suc (Suc 0))) lateEnv exLogger ''edit B'' overlapWorld)
     = Some (Inr (), [(1, False), (2, False), (3, True), (4, True)])"
  by code_simp


lemma map_patch_distinct:
  assumes "distinct (map event_id (pre @ old # post))"
  shows "map (\<lambda>e. if event_id e = event_id old then f e else e) (pre @ old # post) = pre @ f old # post"
proof -
  from assms have "event_id old \<notin> event_id ` set pre" "event_id old \<notin> event_id ` set post"
    by auto
  then have "\<forall>x\<in>set pre. event_id x \<noteq> event_id old" "\<forall>x\<in>set post. event_id x \<noteq> event_id old"
    by (metis imageI)+
  then show ?thesis by (simp add: map_idI)
qed


text \<open>
  C1, as the code has it. Under the conditions of C6, with the remote calls of the retry
  succeeding and the identifiers of the calendar distinct, a \<open>logActivity\<close> call made
  when the open session is lapsed changes one event and adds one: the lapsed event gets
  the marker \<open>true\<close> and the inactivity line after its prior description, and keeps
  its start and end; the added event has a new identifier, the marker \<open>false\<close>, and
  the started line followed by the line of the reported activity as its description.
  All other events stay as they were.
\<close>

theorem lapse_closes_and_restarts:
  assumes r1: "getLatestIncompleteLogEvent env this (clock env (ticks w)) (tzGuess env)
                 (w\<lparr>ticks := Suc (ticks w)\<rparr>) = (Inr old, w2)"
      and lapsed: "hasInactivity this old (clock env (ticks w))"
      and close: "logEndDueToInactivity env this old (clock env (ticks w)) w2 = (Inr (), w3)"
      and restart: "logStart env this w3 = (Inr (), w4)"
      and earlier: "\<forall>x\<in>set (items w). incomplete x \<longrightarrow> startTime x < clock env (ticks w3)"
      and mono: "clock env (ticks w3) \<le> clock env (ticks w4)"
      and look: "clock env (ticks w4) - clock env (ticks w3) \<le> 604800000"
      and prompt: "withinThreshold (of_int (clock env (ticks w4) - clock env (Suc (ticks w3))))
                     (msUntilInactivity this)"
      and f1: "fault env (Suc (ticks w4)) = None" and f2: "fault env (Suc (Suc (ticks w4))) = None"
      and ids: "distinct (map event_id (items w))"
  shows "\<exists>pre post closed fresh w'.
      logActivity (Suc (Suc d)) env this m w = Some (Inr (), w') \<and>
      items w = pre @ old # post \<and> items w' = pre @ closed # post @ [fresh] \<and>
      event_id closed = event_id old \<and> start closed = start old \<and> end_time closed = end_time old \<and>
      extendedProperties closed = Some (marker ''true'') \<and>
      description closed = Some (
        (case description old of None \<Rightarrow> [] | Some p \<Rightarrow> if p = [] then [] else p @ [newline]) @
        logLine env (clock env (ticks w))
          (getLogName this (activityConcluded (strings this)) @ '' '' @
           getLogName this (closedDueToInactivity (strings this)))) \<and>
      event_id fresh \<notin> event_id ` set (items w) \<and>
      extendedProperties fresh = Some (marker ''false'') \<and>
      description fresh = Some (
        logLine env (clock env (ticks w3)) (getLogName this (activityStarted (strings this))) @
        newline # logLine env (clock env (ticks w4)) m)"
proof -
  note rw = retry_world [OF r1 close restart]
  note rf = retry_facts [OF r1 close restart earlier mono look prompt]
  let ?f = "startedEvent env this w3"
  let ?now = "clock env (ticks w4)"
  let ?closed = "patched (clock env (Suc (Suc (ticks w)))) (inactivityPatch env this old (clock env (ticks w))) old"
  let ?fresh = "patched (clock env (Suc (Suc (ticks w4)))) (activityPatch env this m ?f ?now (tzGuess env)) ?f"
  from r1 have conn: "calendarConnection this = None"
    by (auto simp: getLatestIncompleteLogEvent_def split: option.splits)
  from rw(4) obtain pre post where split: "items w = pre @ old # post"
    by (auto dest: split_list)
  with ids rw(2) have i3: "items w3 = pre @ ?closed # post"
    using map_patch_distinct [of pre old post] by simp
  have idf: "event_id ?f = freshId (items w3)" by (simp add: startedEvent_simps)
  have fresh3: "\<forall>x\<in>set (items w3). event_id x \<noteq> event_id ?f"
    using freshId_gt [of _ "items w3"] idf by (metis less_irrefl)
  have "event_id ` set (items w3) = event_id ` set (items w)"
    using i3 split by (simp add: patched_frame)
  moreover from fresh3 have "event_id ?f \<notin> event_id ` set (items w3)" by (metis imageE)
  ultimately have nin: "event_id ?f \<notin> event_id ` set (items w)" by simp
  let ?w' = "\<lparr>items = items w3 @ [?fresh], ticks = Suc (Suc (Suc (ticks w4)))\<rparr>"
  have "logActivity (Suc d) env this m w4 =
     Some (Inr (), \<lparr>items = map (\<lambda>x. if event_id x = event_id ?f
                                  then patched (clock env (Suc (Suc (ticks w4))))
                                         (activityPatch env this m ?f ?now (tzGuess env)) x
                                  else x) (items w4),
                    ticks = Suc (Suc (Suc (ticks w4)))\<rparr>)"
    by (rule activity_forward [OF conn f1 f2 rf(1-5)])
  moreover have "items w4 = items w3 @ [?f]" using rw(3) by simp
  ultimately have retry: "logActivity (Suc d) env this m w4 = Some (Inr (), ?w')"
    using map_patch_last [of "items w3" ?f] fresh3 by simp
  have run: "logActivity (Suc (Suc d)) env this m w = Some (Inr (), ?w')"
    using lapse_unfold [OF r1 lapsed close restart, of "Suc d" m] retry by simp
  have dc: "description ?closed = Some (
        (case description old of None \<Rightarrow> [] | Some p \<Rightarrow> if p = [] then [] else p @ [newline]) @
        logLine env (clock env (ticks w))
          (getLogName this (activityConcluded (strings this)) @ '' '' @
           getLogName this (closedDueToInactivity (strings this))))"
    by (simp add: patched_fields inactivityPatch_def Let_def addToDescription_eq)
  have df: "description ?fresh = Some (
        logLine env (clock env (ticks w3)) (getLogName this (activityStarted (strings this))) @
        newline # logLine env (clock env (ticks w4)) m)"
    by (simp add: patched_fields activityPatch_def startedEvent_simps addToDescription_Some
          logLine_nonempty)
  show ?thesis
    apply (rule exI [of _ pre], rule exI [of _ post], rule exI [of _ ?closed],
           rule exI [of _ ?fresh], rule exI [of _ ?w'])
    using run split i3 nin dc df
    by (simp add: patched_frame patched_fields inactivityPatch_marker inactivityPatch_end
          activityPatch_def)
qed

theorem lapse_closes_and_restarts_witness:
  "logActivity (Suc (Suc 0)) lateEnv exLogger ''edit B'' staleWorld = Some (Inr (), afterLapse) \<and>
   openStates staleWorld = [(1, True)] \<and>
   openStates afterLapse = [(1, False), (2, True)] \<and>
   map description (items afterLapse) =
     [Some (''09:00 - entry'' @ [newline] @
            ''01:16 '' @ en_dash @ '' Worked on proj (closed due to inactivity)''),
      Some (''01:16 '' @ en_dash @ '' Started working on proj'' @ [newline] @
            ''01:16 '' @ en_dash @ '' edit B'')]"
proof -
  have r1: "getLatestIncompleteLogEvent lateEnv exLogger (clock lateEnv (ticks staleWorld))
              (tzGuess lateEnv) (staleWorld\<lparr>ticks := Suc (ticks staleWorld)\<rparr>)
            = (Inr (exEvent 1 0 0 ''false''), staleWorld\<lparr>ticks := 2\<rparr>)"
    by code_simp
  have lapsed: "hasInactivity exLogger (exEvent 1 0 0 ''false'') (clock lateEnv (ticks staleWorld))"
    by code_simp
  have close: "logEndDueToInactivity lateEnv exLogger (exEvent 1 0 0 ''false'')
                 (clock lateEnv (ticks staleWorld)) (staleWorld\<lparr>ticks := 2\<rparr>) = (Inr (), lapseClosed)"
    by code_simp
  have restart: "logStart lateEnv exLogger lapseClosed = (Inr (), lapseRestarted)"
    by code_simp
  have earlier: "\<forall>x\<in>set (items staleWorld). incomplete x \<longrightarrow>
                   startTime x < clock lateEnv (ticks lapseClosed)"
    by code_simp
  have mono: "clock lateEnv (ticks lapseClosed) \<le> clock lateEnv (ticks lapseRestarted)"
    by code_simp
  have look: "clock lateEnv (ticks lapseRestarted) - clock lateEnv (ticks lapseClosed) \<le> 604800000"
    by code_simp
  have prompt: "withinThreshold
                  (of_int (clock lateEnv (ticks lapseRestarted) - clock lateEnv (Suc (ticks lapseClosed))))
                  (msUntilInactivity exLogger)"
    by code_simp
  have f1: "fault lateEnv (Suc (ticks lapseRestarted)) = None" by (simp add: lateEnv_def)
  have f2: "fault lateEnv (Suc (Suc (ticks lapseRestarted))) = None" by (simp add: lateEnv_def)
  have ids: "distinct (map event_id (items staleWorld))" by (simp add: staleWorld_def)
  have run: "logActivity (Suc (Suc 0)) lateEnv exLogger ''edit B'' staleWorld = Some (Inr (), afterLapse)"
    by code_simp
  have o: "openStates staleWorld = [(1, True)]" "openStates afterLapse = [(1, False), (2, True)]"
    by code_simp+
  have d: "map description (items afterLapse) =
     [Some (''09:00 - entry'' @ [newline] @
            ''01:16 '' @ en_dash @ '' Worked on proj (closed due to inactivity)''),
      Some (''01:16 '' @ en_dash @ '' Started working on proj'' @ [newline] @
            ''01:16 '' @ en_dash @ '' edit B'')]"
    by code_simp
  from lapse_closes_and_restarts [OF r1 lapsed close restart earlier mono look prompt f1 f2 ids,
      of 0 "''edit B''"] run o d
  show ?thesis by blast
qed


text \<open>
  The claim C1 as written fails when the retry is late. With a threshold of ten minutes
  and eleven minutes passing between the restart and the retry, the retry finds the
  fresh event lapsed too, closes it and restarts again: call depth two is not enough,
  and the call ends with three events, two closed and one open.
\<close>

theorem lapse_three_events_counterexample:
  "hasInactivity exLogger (exEvent 1 0 0 ''false'') (clock sleepyEnv (ticks staleWorld)) \<and>
   openStates staleWorld = [(1, True)] \<and>
   logActivity (Suc (Suc 0)) sleepyEnv exLogger ''edit B'' staleWorld = None \<and>
   map_option (apsnd openStates)
     (logActivity (Suc (Suc (Suc 0))) sleepyEnv exLogger ''edit B'' staleWorld)
     = Some (Inr (), [(1, False), (2, False), (3, True)])"
  by code_simp

end
